theory Spec2Isabelle
  imports Complex_Main "HOL-Library.Sublist" "HOL-Library.AList"
begin

section \<open>JavaScript values\<close>

text \<open>
  The trial records, the normalized rows and the queue contents are plain data: what
  \<^verbatim>\<open>JSON\<close> can carry, plus \<^verbatim>\<open>undefined\<close> (a missing property) and \<^verbatim>\<open>NaN\<close> (what
  \<^verbatim>\<open>Number(...)\<close> yields on text that is no number). Numbers are exact rationals; strings
  are byte strings in UTF-8. An object is its list of own properties in insertion order.
\<close>

datatype jsval =
    Undefined
  | Null
  | Bool bool
  | Num rat
  | NaN
  | Str string
  | Arr "jsval list"
  | Obj "(string \<times> jsval) list"

datatype js_error = TypeError | QuotaExceededError | SecurityError | SyntaxError

text \<open>\<^verbatim>\<open>typeof v\<close>.\<close>

fun typeof :: "jsval \<Rightarrow> string" where
  "typeof Undefined = ''undefined''"
| "typeof Null = ''object''"
| "typeof (Bool b) = ''boolean''"
| "typeof (Num n) = ''number''"
| "typeof NaN = ''number''"
| "typeof (Str s) = ''string''"
| "typeof (Arr xs) = ''object''"
| "typeof (Obj fs) = ''object''"

text \<open>Truthiness, as \<^verbatim>\<open>if (v)\<close>, \<^verbatim>\<open>!v\<close>, \<^verbatim>\<open>a || b\<close> and \<^verbatim>\<open>a && b\<close> test it.\<close>

fun truthy :: "jsval \<Rightarrow> bool" where
  "truthy Undefined = False"
| "truthy Null = False"
| "truthy (Bool b) = b"
| "truthy (Num n) = (n \<noteq> 0)"
| "truthy NaN = False"
| "truthy (Str s) = (s \<noteq> [])"
| "truthy (Arr xs) = True"
| "truthy (Obj fs) = True"

definition js_or :: "jsval \<Rightarrow> jsval \<Rightarrow> jsval" where
  "js_or a b = (if truthy a then a else b)"

definition js_and :: "jsval \<Rightarrow> jsval \<Rightarrow> jsval" where
  "js_and a b = (if truthy a then b else a)"

text \<open>\<^verbatim>\<open>a ?? b\<close>.\<close>

definition nullish :: "jsval \<Rightarrow> bool" where
  "nullish v = (v = Undefined \<or> v = Null)"

definition coalesce :: "jsval \<Rightarrow> jsval \<Rightarrow> jsval" where
  "coalesce a b = (if nullish a then b else a)"

text \<open>
  \<^verbatim>\<open>v.name\<close> on a value that is neither \<^verbatim>\<open>null\<close> nor \<^verbatim>\<open>undefined\<close>, for the property
  names the logger reads (none of them is a built-in property of a string, a number or an
  array): an object answers with its own property, everything else with \<^verbatim>\<open>undefined\<close>.
  Reading a property of \<^verbatim>\<open>null\<close> or \<^verbatim>\<open>undefined\<close> throws; the callers below make that
  case explicit before they use \<open>get_prop\<close>.
\<close>

fun get_prop :: "jsval \<Rightarrow> string \<Rightarrow> jsval" where
  "get_prop (Obj fs) name = (case map_of fs name of Some v \<Rightarrow> v | None \<Rightarrow> Undefined)"
| "get_prop v name = Undefined"

definition is_defined :: "jsval \<Rightarrow> bool" where
  "is_defined v = (typeof v \<noteq> ''undefined'')"

text \<open>Decimal digits of an array index, for the keys of \<^verbatim>\<open>Object.entries\<close> of an array.\<close>

fun digits :: "nat \<Rightarrow> nat \<Rightarrow> string" where
  "digits 0 n = []"
| "digits (Suc fuel) n =
     (if n < 10 then [char_of (48 + n)] else digits fuel (n div 10) @ [char_of (48 + n mod 10)])"

definition index_key :: "nat \<Rightarrow> string" where
  "index_key n = digits (Suc n) n"

text \<open>\<^verbatim>\<open>Object.entries(v)\<close> for a non-nullish \<open>v\<close>.\<close>

fun Object_entries :: "jsval \<Rightarrow> (string \<times> jsval) list" where
  "Object_entries (Obj fs) = fs"
| "Object_entries (Arr xs) = zip (map index_key [0..<length xs]) xs"
| "Object_entries (Str s) = zip (map index_key [0..<length s]) (map (\<lambda>c. Str [c]) s)"
| "Object_entries v = []"

subsection \<open>Text primitives\<close>

text \<open>
  \<^verbatim>\<open>String(v)\<close>, \<^verbatim>\<open>Number(v)\<close> and \<^verbatim>\<open>'text' + v\<close> first turn an object into a primitive
  through its \<^verbatim>\<open>toString\<close> and \<^verbatim>\<open>valueOf\<close> methods. A plain object inherits both; an own
  property named \<^verbatim>\<open>toString\<close> hides the inherited method, its value (data, never a
  function here) cannot be called, \<^verbatim>\<open>valueOf\<close> returns the object itself, and the
  conversion throws a \<^verbatim>\<open>TypeError\<close>. An array converts its elements in turn.
  \<open>printable v\<close> says that the conversion of \<open>v\<close> does not throw.
\<close>

fun printable :: "jsval \<Rightarrow> bool" where
  "printable (Obj fs) = (''toString'' \<notin> set (map fst fs))"
| "printable (Arr xs) = list_all printable xs"
| "printable v = True"

text \<open>
  \<^verbatim>\<open>String(v)\<close> for a printable \<open>v\<close>. How a number prints is ECMAScript's
  \<^verbatim>\<open>Number::toString\<close> on doubles; it is a parameter \<open>fmt\<close> of everything that prints numbers.
\<close>

definition join :: "string \<Rightarrow> string list \<Rightarrow> string" where
  "join sep xs = (case xs of [] \<Rightarrow> [] | y # ys \<Rightarrow> y @ concat (map (\<lambda>z. sep @ z) ys))"

fun js_String :: "(rat \<Rightarrow> string) \<Rightarrow> jsval \<Rightarrow> string" where
  "js_String fmt Undefined = ''undefined''"
| "js_String fmt Null = ''null''"
| "js_String fmt (Bool b) = (if b then ''true'' else ''false'')"
| "js_String fmt (Num n) = fmt n"
| "js_String fmt NaN = ''NaN''"
| "js_String fmt (Str s) = s"
| "js_String fmt (Arr xs) =
     join '','' (map (\<lambda>x. if x = Undefined \<or> x = Null then [] else js_String fmt x) xs)"
| "js_String fmt (Obj fs) = ''[object Object]''"

definition hex_lower :: "nat \<Rightarrow> char" where
  "hex_lower n = (if n < 10 then char_of (48 + n) else char_of (87 + n))"

definition hex_upper :: "nat \<Rightarrow> char" where
  "hex_upper n = (if n < 10 then char_of (48 + n) else char_of (55 + n))"

text \<open>One character of a string literal, as \<^verbatim>\<open>JSON.stringify\<close> quotes it.\<close>

definition json_char :: "char \<Rightarrow> string" where
  "json_char c =
     (let n = (of_char c :: nat) in
      if n = 34 then [CHR 0x5C, CHR 0x22]
      else if n = 92 then [CHR 0x5C, CHR 0x5C]
      else if n = 8 then [CHR 0x5C, CHR ''b'']
      else if n = 9 then [CHR 0x5C, CHR ''t'']
      else if n = 10 then [CHR 0x5C, CHR ''n'']
      else if n = 12 then [CHR 0x5C, CHR ''f'']
      else if n = 13 then [CHR 0x5C, CHR ''r'']
      else if n < 32 then [CHR 0x5C, CHR ''u'', CHR ''0'', CHR ''0'', hex_lower (n div 16), hex_lower (n mod 16)]
      else [c])"

definition json_quote :: "string \<Rightarrow> string" where
  "json_quote s = [CHR 0x22] @ concat (map json_char s) @ [CHR 0x22]"

text \<open>
  The text \<^verbatim>\<open>JSON.stringify\<close> writes for a value inside an array or an object:
  \<^verbatim>\<open>undefined\<close> and \<^verbatim>\<open>NaN\<close> print as \<^verbatim>\<open>null\<close> in an array, and a property whose value is
  \<^verbatim>\<open>undefined\<close> is left out of an object.
\<close>

fun json_text :: "(rat \<Rightarrow> string) \<Rightarrow> jsval \<Rightarrow> string" where
  "json_text fmt Undefined = ''null''"
| "json_text fmt Null = ''null''"
| "json_text fmt (Bool b) = (if b then ''true'' else ''false'')"
| "json_text fmt (Num n) = fmt n"
| "json_text fmt NaN = ''null''"
| "json_text fmt (Str s) = json_quote s"
| "json_text fmt (Arr xs) = ''['' @ join '','' (map (json_text fmt) xs) @ '']''"
| "json_text fmt (Obj fs) =
     ''{'' @ join '',''
        (map (\<lambda>(k, v). json_quote k @ '':'' @ json_text fmt v)
             (filter (\<lambda>(k, v). v \<noteq> Undefined) fs)) @ ''}''"

text \<open>\<^verbatim>\<open>JSON.stringify(v)\<close>: \<^verbatim>\<open>undefined\<close> at the top level stays \<^verbatim>\<open>undefined\<close>.\<close>

definition JSON_stringify :: "(rat \<Rightarrow> string) \<Rightarrow> jsval \<Rightarrow> jsval" where
  "JSON_stringify fmt v = (if v = Undefined then Undefined else Str (json_text fmt v))"

text \<open>
  \<^verbatim>\<open>encodeURIComponent\<close>: the unreserved characters stay, every other byte of the UTF-8
  text becomes \<^verbatim>\<open>%XX\<close>.
\<close>

definition unreserved :: "char \<Rightarrow> bool" where
  "unreserved c =
     (let n = (of_char c :: nat) in
      (65 \<le> n \<and> n \<le> 90) \<or> (97 \<le> n \<and> n \<le> 122) \<or> (48 \<le> n \<and> n \<le> 57) \<or>
      c \<in> set ''-_.!~*'()'')"

definition encode_char :: "char \<Rightarrow> string" where
  "encode_char c =
     (if unreserved c then [c]
      else [CHR ''%'', hex_upper (of_char c div 16), hex_upper (of_char c mod 16)])"

definition encodeURIComponent :: "string \<Rightarrow> string" where
  "encodeURIComponent s = concat (map encode_char s)"

section \<open>Row normalizer (src/logging/build.js)\<close>

text \<open>
  What \<^verbatim>\<open>buildRowsForLogging\<close> reads from its surroundings: the browser's user agent, the
  clock, \<^verbatim>\<open>window.CONFIG\<close>, the session identifier minted when the module loads, the
  fullscreen state, and the library routines whose results depend on text formats outside
  this development (the regular expressions of \<^verbatim>\<open>parseUA\<close>, number printing and parsing,
  the product \<^verbatim>\<open>x * 1000\<close> as double arithmetic rounds it, and \<^verbatim>\<open>JSON.parse\<close>, where
  \<open>None\<close> stands for the \<^verbatim>\<open>SyntaxError\<close> it throws).
\<close>

record env =
  userAgent :: string
  nowIso :: string
  CONFIG :: jsval
  SESSION_ID :: string
  fullscreenElement :: jsval
  parseUA :: "string \<Rightarrow> jsval \<times> jsval \<times> jsval"
  num_to_string :: "rat \<Rightarrow> string"
  string_to_num :: "string \<Rightarrow> rat option"
  times_1000 :: "rat \<Rightarrow> rat"
  JSON_parse :: "string \<Rightarrow> jsval option"

definition APP_VERSION :: string where
  "APP_VERSION = ''0.1.0''"

definition setId :: "env \<Rightarrow> jsval" where
  "setId e =
     (if truthy (js_and (CONFIG e) (get_prop (CONFIG e) ''set_id''))
      then get_prop (CONFIG e) ''set_id'' else Null)"

text \<open>\<^verbatim>\<open>Number(v)\<close> for a printable \<open>v\<close>.\<close>

definition js_Number :: "env \<Rightarrow> jsval \<Rightarrow> jsval" where
  "js_Number e v =
     (case v of
        Undefined \<Rightarrow> NaN
      | Null \<Rightarrow> Num 0
      | Bool b \<Rightarrow> Num (if b then 1 else 0)
      | Num n \<Rightarrow> Num n
      | NaN \<Rightarrow> NaN
      | _ \<Rightarrow> (case string_to_num e (js_String (num_to_string e) v) of
                Some r \<Rightarrow> Num r | None \<Rightarrow> NaN))"

text \<open>
  \<^verbatim>\<open>Math.round(x * 1000)\<close> on a value whose \<^verbatim>\<open>typeof\<close> is \<^verbatim>\<open>number\<close>: the product is the
  double the environment computes, \<^verbatim>\<open>Math.round\<close> takes the nearest integer of that double,
  a half going up.
\<close>

definition round_ms :: "env \<Rightarrow> jsval \<Rightarrow> jsval" where
  "round_ms e v = (case v of Num x \<Rightarrow> Num (of_int \<lfloor>times_1000 e x + 1 / 2\<rfloor>) | _ \<Rightarrow> NaN)"

text \<open>\<^verbatim>\<open>baseName\<close>: the file name without its path, or \<^verbatim>\<open>null\<close>.\<close>

definition baseName :: "jsval \<Rightarrow> jsval" where
  "baseName s =
     (case s of
        Str t \<Rightarrow> (if t \<noteq> [] then Str (rev (takeWhile (\<lambda>c. c \<noteq> CHR ''/'') (rev t))) else Null)
      | _ \<Rightarrow> Null)"

definition ALLOW_TYPES :: "string list" where
  "ALLOW_TYPES =
     [''door_trial'', ''trust_probe_mid'', ''reputation_item'', ''reputation_probe'',
      ''questionnaire40pre'', ''questionnaire40post'', ''questionnaire14mid1'',
      ''questionnaire14mid2'', ''questionnaire'', ''demographics'', ''emergency_trial'']"

definition IGNORE_TRIAL_TYPES :: "string list" where
  "IGNORE_TRIAL_TYPES =
     [''training_intro'', ''overview_rescuer'', ''robot_description'',
      ''fade_transition'', ''transition'']"

text \<open>\<^verbatim>\<open>set.has(v)\<close> for a set of strings.\<close>

definition has :: "string list \<Rightarrow> jsval \<Rightarrow> bool" where
  "has S v = (case v of Str t \<Rightarrow> t \<in> set S | _ \<Rightarrow> False)"

definition pairsFromObject :: "jsval \<Rightarrow> jsval" where
  "pairsFromObject obj =
     (if \<not> truthy obj \<or> typeof obj \<noteq> ''object'' then Null
      else Arr (map (\<lambda>(k, v). Arr [Str k, v]) (Object_entries obj)))"

definition is_space :: "char \<Rightarrow> bool" where
  "is_space c = (c \<in> set [CHR 0x20, CHR 0x09, CHR 0x0A, CHR 0x0B, CHR 0x0C, CHR 0x0D])"

text \<open>\<^verbatim>\<open>typeof r === 'string' && r.trim().startsWith('{')\<close>.\<close>

definition brace_text :: "jsval \<Rightarrow> bool" where
  "brace_text r = (case r of Str t \<Rightarrow> prefix ''{'' (dropWhile is_space t) | _ \<Rightarrow> False)"

definition total_of :: "jsval \<Rightarrow> string \<Rightarrow> string \<Rightarrow> jsval" where
  "total_of d percent score =
     (if typeof (get_prop d percent) = ''number'' then get_prop d percent
      else if typeof (get_prop d score) = ''number'' then get_prop d score
      else Null)"

text \<open>\<^verbatim>\<open>extractQuestionnaireFields\<close>: the pair \<^verbatim>\<open>(qa_pairs_json, questionnaire_score)\<close>.\<close>

definition extractQuestionnaireFields :: "env \<Rightarrow> jsval \<Rightarrow> jsval \<times> jsval" where
  "extractQuestionnaireFields e d =
     (if get_prop d ''event_type'' = Str ''demographics'' then (Null, Null)
      else if truthy (get_prop d ''trust40_raw'') then
        (JSON_stringify (num_to_string e) (pairsFromObject (get_prop d ''trust40_raw'')),
         total_of d ''trust40_total_percent'' ''trust40_total_score'')
      else if truthy (get_prop d ''trust14_raw'') then
        (JSON_stringify (num_to_string e) (pairsFromObject (get_prop d ''trust14_raw'')),
         total_of d ''trust14_total_percent'' ''trust14_total_score'')
      else if brace_text (get_prop d ''responses'') then
        (case JSON_parse e (case get_prop d ''responses'' of Str t \<Rightarrow> t | _ \<Rightarrow> []) of
           Some parsed \<Rightarrow> (JSON_stringify (num_to_string e) (pairsFromObject parsed), Null)
         | None \<Rightarrow> (Null, Null))
      else (Null, Null))"

text \<open>\<^verbatim>\<open>mapEventType\<close>, for a record that is neither \<^verbatim>\<open>null\<close> nor \<^verbatim>\<open>undefined\<close>.\<close>

definition mapEventType :: "jsval \<Rightarrow> jsval" where
  "mapEventType d =
     (if truthy (get_prop d ''event_type'') then get_prop d ''event_type''
      else
        let tt = js_or (get_prop d ''trial_type'') (Str []) in
        if is_defined (get_prop d ''true_location'') \<or> tt = Str ''door'' then Str ''door_trial''
        else if tt = Str ''trust_probe'' then Str ''trust_probe_mid''
        else if tt = Str ''reviews_set'' then Str ''reputation_item''
        else if tt = Str ''reputation_probe'' then Str ''reputation_probe''
        else if tt = Str ''trust40_pre'' then Str ''questionnaire40pre''
        else if tt = Str ''trust40_post'' then Str ''questionnaire40post''
        else if tt = Str ''trust14_mid1'' then Str ''questionnaire14mid1''
        else if tt = Str ''trust14_mid2'' then Str ''questionnaire14mid2''
        else if truthy (get_prop d ''trust40_raw'') \<or> truthy (get_prop d ''trust14_raw'')
                \<or> truthy (get_prop d ''responses'') then Str ''questionnaire''
        else tt)"

text \<open>\<^verbatim>\<open>String(d.choice) === String(d.suggestion)\<close> when both are present, else \<^verbatim>\<open>null\<close>.\<close>

definition choice_matches :: "env \<Rightarrow> jsval \<Rightarrow> jsval" where
  "choice_matches e d =
     (if is_defined (get_prop d ''choice'') \<and> is_defined (get_prop d ''suggestion'')
      then Bool (js_String (num_to_string e) (get_prop d ''choice'')
                 = js_String (num_to_string e) (get_prop d ''suggestion''))
      else Null)"

definition unifiedResponse :: "env \<Rightarrow> jsval \<Rightarrow> jsval \<Rightarrow> jsval" where
  "unifiedResponse e d et =
     (if et = Str ''door_trial'' then
        (let f0 = (if typeof (get_prop d ''followed'') = ''boolean'' then get_prop d ''followed'' else Null);
             f = (if f0 = Null \<and> is_defined (get_prop d ''choice'') \<and> is_defined (get_prop d ''suggestion'')
                  then choice_matches e d else f0);
             c = (if typeof (get_prop d ''correct'') = ''boolean'' then get_prop d ''correct'' else Null)
         in JSON_stringify (num_to_string e) (Obj [(''followed'', f), (''correct'', c)]))
      else if et = Str ''trust_probe_mid'' then
        (if is_defined (get_prop d ''slider_value'') then js_Number e (get_prop d ''slider_value'') else Null)
      else if et = Str ''reputation_probe'' then
        (if is_defined (get_prop d ''reputation_probe_delta'') then get_prop d ''reputation_probe_delta''
         else if is_defined (get_prop d ''response'') then get_prop d ''response''
         else Null)
      else if et = Str ''emergency_trial'' then
        coalesce (get_prop d ''emergency_preference'')
          (if get_prop d ''response'' = Num 0 then Str ''self''
           else if get_prop d ''response'' = Num 1 then Str ''robot'' else Null)
      else if et = Str ''questionnaire40pre'' \<or> et = Str ''questionnaire40post'' then
        coalesce (get_prop d ''trust40_total_percent'') (coalesce (get_prop d ''trust40_total_score'') Null)
      else if et = Str ''questionnaire14mid1'' \<or> et = Str ''questionnaire14mid2'' then
        coalesce (get_prop d ''trust14_total_percent'') (coalesce (get_prop d ''trust14_total_score'') Null)
      else if et = Str ''demographics'' then
        (if typeof (get_prop d ''response'') = ''string'' then get_prop d ''response'' else Null)
      else (if is_defined (get_prop d ''response'') then get_prop d ''response'' else Null))"

text \<open>\<^verbatim>\<open>(typeof d.name !== 'undefined') ? d.name : null\<close>.\<close>

definition or_null :: "jsval \<Rightarrow> string \<Rightarrow> jsval" where
  "or_null d name = (if is_defined (get_prop d name) then get_prop d name else Null)"

definition risk_key :: "jsval \<Rightarrow> jsval" where
  "risk_key d =
     (if is_defined (get_prop d ''risk_key'') then get_prop d ''risk_key''
      else if truthy (js_and (get_prop d ''risk_overrides'')
                             (get_prop (get_prop d ''risk_overrides'') ''risk_key''))
      then get_prop (get_prop d ''risk_overrides'') ''risk_key''
      else Null)"

definition risk_value :: "jsval \<Rightarrow> jsval" where
  "risk_value d =
     (if is_defined (get_prop d ''risk_value'') then get_prop d ''risk_value''
      else if truthy (get_prop d ''risk_overrides'')
              \<and> is_defined (get_prop (get_prop d ''risk_overrides'') ''risk_value'')
      then get_prop (get_prop d ''risk_overrides'') ''risk_value''
      else Null)"

text \<open>
  The object literal \<^verbatim>\<open>row\<close> of the callback, in the order of its properties;
  \<open>uaField\<close> is the value the callback computed for \<^verbatim>\<open>user_agent\<close>.
\<close>

definition row_literal :: "env \<Rightarrow> jsval \<Rightarrow> jsval \<Rightarrow> jsval \<Rightarrow> (string \<times> jsval) list" where
  "row_literal e d et uaField =
     [(''session_id'', if is_defined (get_prop d ''session_id'') then get_prop d ''session_id''
                       else Str (SESSION_ID e)),
      (''participant_id'', js_or (get_prop d ''participant_id'') (Str [])),
      (''set_id'', setId e),
      (''block_index'', or_null d ''block_index''),
      (''trial_index'', or_null d ''trial_index''),
      (''event_type'', et),
      (''ts_client'', Str (nowIso e)),
      (''ts_seq'', or_null d ''_ts_seq''),
      (''row_id'', if is_defined (get_prop d ''_ts_seq'')
                   then Str (SESSION_ID e @ '':'' @ js_String (num_to_string e) (get_prop d ''_ts_seq''))
                   else Null),
      (''is_fullscreen'', Bool (truthy (fullscreenElement e))),
      (''device_type'', fst (parseUA e (userAgent e))),
      (''browser_name'', fst (snd (parseUA e (userAgent e)))),
      (''browser_major'', snd (snd (parseUA e (userAgent e)))),
      (''user_agent'', uaField),
      (''seed'', js_or (get_prop d ''seed'') (Str [])),
      (''risk_key'', risk_key d),
      (''risk_value'', risk_value d),
      (''suggestion'', or_null d ''suggestion''),
      (''followed'', choice_matches e d),
      (''correct'', or_null d ''correct''),
      (''rt_ms'', if typeof (get_prop d ''reaction_time_s'') = ''number''
                  then round_ms e (get_prop d ''reaction_time_s'') else Null),
      (''probe_id'', js_or (get_prop d ''probe_context'') (js_or (get_prop d ''probe_id'') Null)),
      (''response'', unifiedResponse e d et),
      (''review_condition'', or_null d ''review_condition''),
      (''review_expected'', or_null d ''review_expected''),
      (''review_ids'', or_null d ''review_ids''),
      (''review_tones'', or_null d ''review_tones''),
      (''review_avatars'', or_null d ''review_avatars''),
      (''victim_skin'', baseName (get_prop d ''victim_src'')),
      (''background_src'', baseName (get_prop d ''background_src'')),
      (''door_src'', baseName (get_prop d ''door_src'')),
      (''client_version'', Str APP_VERSION),
      (''trial_type'', js_or (get_prop d ''trial_type'')
                         (if is_defined (get_prop d ''true_location'') then Str ''door'' else Str [])),
      (''true_location'', or_null d ''true_location''),
      (''reaction_time_s'', or_null d ''reaction_time_s''),
      (''slider_value'', or_null d ''slider_value''),
      (''emergency_choice_index'',
         if get_prop d ''trial_type'' = Str ''survey_button'' then get_prop d ''choice'' else Null),
      (''ts'', Str (nowIso e))]"

text \<open>
  The questionnaire payload is added to the row, and then every property of the record
  whose name the row does not have yet.
\<close>

definition finish_row :: "env \<Rightarrow> jsval \<Rightarrow> (string \<times> jsval) list \<Rightarrow> (string \<times> jsval) list" where
  "finish_row e d row =
     (let ets = js_or (get_prop (Obj row) ''event_type'') (Str []);
          isQ = (ets = Str ''questionnaire''
                 \<or> (case ets of Str t \<Rightarrow> prefix ''questionnaire'' t | _ \<Rightarrow> False)
                 \<or> ets = Str ''demographics'');
          qf = (if isQ then extractQuestionnaireFields e d else (Null, Null));
          row2 = row @ [(''qa_pairs_json'', fst qf), (''questionnaire_score'', snd qf)]
      in row2 @ filter (\<lambda>(k, v). k \<notin> set (map fst row2)) (Object_entries d))"

text \<open>
  The conversions the callback makes while it builds the row, each of which can throw:
  \<^verbatim>\<open>String(d.choice)\<close> and \<^verbatim>\<open>String(d.suggestion)\<close> when both are present (for
  \<^verbatim>\<open>followed\<close>, and again in \<^verbatim>\<open>unifiedResponse\<close>), \<^verbatim>\<open>SESSION_ID + ':' + d._ts_seq\<close> when
  \<^verbatim>\<open>_ts_seq\<close> is present, and \<^verbatim>\<open>Number(d.slider_value)\<close> for a trust probe that has one.
  All of them come before the flag \<^verbatim>\<open>window.__UA_EMITTED__\<close> is written.
\<close>

definition conversions_ok :: "jsval \<Rightarrow> jsval \<Rightarrow> bool" where
  "conversions_ok d et =
     ((is_defined (get_prop d ''choice'') \<and> is_defined (get_prop d ''suggestion'')
         \<longrightarrow> printable (get_prop d ''choice'') \<and> printable (get_prop d ''suggestion''))
      \<and> (is_defined (get_prop d ''_ts_seq'') \<longrightarrow> printable (get_prop d ''_ts_seq''))
      \<and> (et = Str ''trust_probe_mid'' \<and> is_defined (get_prop d ''slider_value'')
         \<longrightarrow> printable (get_prop d ''slider_value'')))"

text \<open>
  The callback of \<^verbatim>\<open>allTrials.map\<close>. It takes the value of \<^verbatim>\<open>window.__UA_EMITTED__\<close> and
  returns the row (or \<^verbatim>\<open>null\<close> for a dropped record) with the new value of the flag. Its
  first statement reads \<^verbatim>\<open>d.event_type\<close>: on \<^verbatim>\<open>null\<close> or \<^verbatim>\<open>undefined\<close> that throws a
  \<^verbatim>\<open>TypeError\<close>. Every later property read is on \<open>d\<close> again or behind a truthiness test;
  what else can throw is a conversion of a value to text or to a number.
\<close>

definition normalize_trial :: "env \<Rightarrow> bool \<Rightarrow> jsval \<Rightarrow> js_error + (jsval \<times> bool)" where
  "normalize_trial e emitted d =
     (if nullish d then Inl TypeError
      else
        let et = mapEventType d in
        if has IGNORE_TRIAL_TYPES (js_or (get_prop d ''trial_type'') (Str [])) \<or> \<not> has ALLOW_TYPES et
        then Inr (Null, emitted)
        else if get_prop d ''is_demo'' = Bool True \<or> et = Str ''training_demo''
                \<or> get_prop d ''trial_type'' = Str ''training_demo''
        then Inr (Null, emitted)
        else if \<not> conversions_ok d et then Inl TypeError
        else
          let uaField = (if emitted then Null else Str (userAgent e));
              row = row_literal e d et uaField;
              emitted' = (if \<not> emitted \<and> truthy uaField then True else emitted)
          in Inr (Obj (finish_row e d row), emitted'))"

text \<open>
  \<^verbatim>\<open>allTrials.map(callback)\<close>, front to back, threading the flag. An exception leaves the
  loop at once; what the flag was set to before stays.
\<close>

fun map_trials :: "env \<Rightarrow> bool \<Rightarrow> jsval list \<Rightarrow> (js_error + jsval list) \<times> bool" where
  "map_trials e emitted [] = (Inr [], emitted)"
| "map_trials e emitted (d # ds) =
     (case normalize_trial e emitted d of
        Inl err \<Rightarrow> (Inl err, emitted)
      | Inr (r, emitted') \<Rightarrow>
          (case map_trials e emitted' ds of
             (Inl err, emitted'') \<Rightarrow> (Inl err, emitted'')
           | (Inr rs, emitted'') \<Rightarrow> (Inr (r # rs), emitted'')))"

text \<open>
  \<^verbatim>\<open>buildRowsForLogging(allTrials)\<close> on the flag \<^verbatim>\<open>window.__UA_EMITTED__\<close> (\<open>None\<close> while
  it is not a boolean): the rows, or the exception, and the flag afterwards.
  \<^verbatim>\<open>.filter(Boolean)\<close> keeps the truthy results.
\<close>

definition buildRowsForLogging ::
  "env \<Rightarrow> jsval list \<Rightarrow> bool option \<Rightarrow> (js_error + jsval list) \<times> bool option" where
  "buildRowsForLogging e allTrials ua_emitted =
     (let emitted = (case ua_emitted of Some b \<Rightarrow> b | None \<Rightarrow> False) in
      case map_trials e emitted allTrials of
        (Inl err, emitted') \<Rightarrow> (Inl err, Some emitted')
      | (Inr rs, emitted') \<Rightarrow> (Inr (filter truthy rs), Some emitted'))"

section \<open>Durable store (src/logging/idb.js)\<close>

text \<open>
  An entry as \<^verbatim>\<open>idbReadBatch\<close> returns it: the key of the record in the object store,
  or the position \<^verbatim>\<open>'ls_' + i\<close> in the fallback array, and the row.
\<close>

datatype entry_id = IdbKey nat | LsId nat

datatype queue_entry = QueueEntry (id_of: entry_id) (row_of: jsval)

text \<open>
  Where \<^verbatim>\<open>flushQueue\<close> is suspended: not running, at \<^verbatim>\<open>await idbReadBatch\<close>, at
  \<^verbatim>\<open>await sendBatch\<close> while the request is in flight, or at \<^verbatim>\<open>await idbDeleteIds\<close>; the
  last two with the batch the loop holds.
\<close>

datatype drain_pc = Idle | Reading | Sending "queue_entry list" | Deleting "queue_entry list"

text \<open>
  The state of the page that the logging pipeline reads and writes: the globals on
  \<^verbatim>\<open>window\<close>, the module variables of \<^verbatim>\<open>logging/index.js\<close>, the timeouts the browser
  holds for \<^verbatim>\<open>setTimeout\<close> (handle and delay), the two storage backends, and what has
  left the page (the batches given to \<^verbatim>\<open>fetch\<close> and to \<^verbatim>\<open>navigator.sendBeacon\<close>).

  The object store \<^verbatim>\<open>events\<close> maps each auto-increment key to the stored row (the
  \<^verbatim>\<open>createdAt\<close> stamp beside the row is never read and is left out); \<open>idb_open\<close> says
  whether \<^verbatim>\<open>idbOpen()\<close> resolves to a database, \<open>log_queue_ls\<close> is the array parsed from
  \<^verbatim>\<open>localStorage['log_queue_ls']\<close>. \<^verbatim>\<open>window.__LOG_BUFFER__\<close> unset behaves as the empty
  array everywhere it is used and is not told apart from it. \<open>drain_pc\<close> is the point
  where the drain is suspended, \<open>clearing\<close> says that \<^verbatim>\<open>clearLocalQueue\<close> has been called
  and has not emptied the store yet, \<open>hung\<close> that the page sits in a loop that does not
  end.
\<close>

record state =
  UA_EMITTED :: "bool option"
  LOG_SEQ :: "nat option"
  DISCARD_DATA :: bool
  LOG_BUFFER :: "jsval list"
  LOG_RETRY_ATTEMPTS :: nat
  LOG_FLUSHING :: bool
  LOG_BACKOFF_TIMER :: "nat option"
  timers :: "(nat \<times> nat) list"
  next_handle :: nat
  idb_open :: bool
  events :: "(nat \<times> jsval) list"
  next_key :: nat
  log_queue_ls :: "jsval list"
  has_sendBeacon :: bool
  posted :: "jsval list list"
  beacons :: "jsval list list"
  drain_pc :: drain_pc
  clearing :: bool
  hung :: bool

text \<open>How a storage request ends: it completes, or it fails with an error.\<close>

datatype tx_outcome = Completes | Fails js_error

text \<open>
  What \<^verbatim>\<open>JSON.parse(JSON.stringify(v))\<close> makes of a value: \<^verbatim>\<open>undefined\<close> and \<^verbatim>\<open>NaN\<close> in an
  array become \<^verbatim>\<open>null\<close>, a property whose value is \<^verbatim>\<open>undefined\<close> is gone.
\<close>

fun json_image :: "jsval \<Rightarrow> jsval" where
  "json_image Undefined = Null"
| "json_image NaN = Null"
| "json_image (Arr xs) = Arr (map json_image xs)"
| "json_image (Obj fs) = Obj (map (\<lambda>(k, v). (k, json_image v)) (filter (\<lambda>(k, v). v \<noteq> Undefined) fs))"
| "json_image v = v"

text \<open>
  \<^verbatim>\<open>idbPutAll(rows)\<close>. The fallback keeps the queue as JSON text in \<^verbatim>\<open>localStorage\<close>, so
  what is read back later is the JSON image of each row; \<^verbatim>\<open>localStorage.setItem\<close> throws on
  failure and nothing catches it. In the IndexedDB branch \<^verbatim>\<open>tx.onerror\<close> resolves the
  promise and the aborted transaction has stored nothing.
\<close>

definition idbPutAll :: "tx_outcome \<Rightarrow> jsval list \<Rightarrow> state \<Rightarrow> js_error + state" where
  "idbPutAll w rows s =
     (if \<not> idb_open s then
        (case w of
           Fails err \<Rightarrow> Inl err
         | Completes \<Rightarrow> Inr (s\<lparr>log_queue_ls := log_queue_ls s @ map json_image rows\<rparr>))
      else
        (case w of
           Fails err \<Rightarrow> Inr s
         | Completes \<Rightarrow>
             Inr (s\<lparr>events := events s @ zip [next_key s ..< next_key s + length rows] rows,
                    next_key := next_key s + length rows\<rparr>)))"

text \<open>
  What a read of the head of the queue finds: the cursor of the object store walks the
  records by ascending key and stops after \<open>limit\<close> of them; the fallback takes
  \<^verbatim>\<open>arr.slice(0, limit)\<close> and numbers the items.
\<close>

definition read_head :: "nat \<Rightarrow> state \<Rightarrow> queue_entry list" where
  "read_head limit s =
     (if \<not> idb_open s then
        map (\<lambda>(i, r). QueueEntry (LsId i) r) (enumerate 0 (take limit (log_queue_ls s)))
      else
        take limit (map (\<lambda>(k, r). QueueEntry (IdbKey k) r) (sort_key fst (events s))))"

text \<open>
  \<^verbatim>\<open>idbReadBatch(limit)\<close>, with the way the read ends. A failing cursor request resolves
  the promise with the empty list (\<^verbatim>\<open>req.onerror\<close>); in the fallback a failing
  \<^verbatim>\<open>localStorage.getItem\<close> or \<^verbatim>\<open>JSON.parse\<close> throws.
\<close>

definition idbReadBatch :: "tx_outcome \<Rightarrow> nat \<Rightarrow> state \<Rightarrow> js_error + queue_entry list" where
  "idbReadBatch r limit s =
     (if \<not> idb_open s then
        (case r of Fails err \<Rightarrow> Inl err | Completes \<Rightarrow> Inr (read_head limit s))
      else
        (case r of Fails err \<Rightarrow> Inr [] | Completes \<Rightarrow> Inr (read_head limit s)))"

text \<open>
  What a delete that goes through does: by primary key in the object store; in the
  fallback the first \<^verbatim>\<open>items.length\<close> items go, whatever their identifiers.
\<close>

definition delete_entries :: "queue_entry list \<Rightarrow> state \<Rightarrow> state" where
  "delete_entries items s =
     (if \<not> idb_open s then s\<lparr>log_queue_ls := drop (length items) (log_queue_ls s)\<rparr>
      else s\<lparr>events := filter (\<lambda>(k, r). IdbKey k \<notin> set (map id_of items)) (events s)\<rparr>)"

text \<open>
  \<^verbatim>\<open>idbDeleteIds(items)\<close>, with the way the delete ends. A failing transaction resolves the
  promise all the same (\<^verbatim>\<open>tx.onerror\<close>) and has deleted nothing; in the fallback a failing
  \<^verbatim>\<open>localStorage\<close> call throws.
\<close>

definition idbDeleteIds :: "tx_outcome \<Rightarrow> queue_entry list \<Rightarrow> state \<Rightarrow> js_error + state" where
  "idbDeleteIds r items s =
     (if \<not> idb_open s then
        (case r of Fails err \<Rightarrow> Inl err | Completes \<Rightarrow> Inr (delete_entries items s))
      else
        (case r of Fails err \<Rightarrow> Inr s | Completes \<Rightarrow> Inr (delete_entries items s)))"

section \<open>Delivery engine (src/logging/index.js)\<close>

definition LOG_BATCH_SIZE :: nat where
  "LOG_BATCH_SIZE = 25"

text \<open>
  \<^verbatim>\<open>scheduleFlush(delayMs)\<close>. \<^verbatim>\<open>setTimeout\<close> hands out a fresh handle; the test
  \<^verbatim>\<open>if (LOG_BACKOFF_TIMER)\<close> is a truthiness test on the handle.
\<close>

definition timer_set :: "state \<Rightarrow> bool" where
  "timer_set s = (case LOG_BACKOFF_TIMER s of None \<Rightarrow> False | Some h \<Rightarrow> h \<noteq> 0)"

definition scheduleFlush :: "nat \<Rightarrow> state \<Rightarrow> state" where
  "scheduleFlush delayMs s =
     (if DISCARD_DATA s then s
      else if timer_set s then s
      else s\<lparr>LOG_BACKOFF_TIMER := Some (next_handle s),
             timers := timers s @ [(next_handle s, delayMs)],
             next_handle := next_handle s + 1\<rparr>)"

text \<open>What \<^verbatim>\<open>fetch\<close> comes back with: a response (status and type), or a network error.\<close>

datatype response_type = basic | cors | opaque | opaqueredirect | error_response

datatype fetch_result = Response nat response_type | NetworkError

definition okLike :: "fetch_result \<Rightarrow> bool" where
  "okLike res =
     (case res of
        NetworkError \<Rightarrow> False
      | Response status ty \<Rightarrow>
          (200 \<le> status \<and> status \<le> 299) \<or> status = 302 \<or> ty = opaqueredirect \<or> ty = opaque)"

definition backoffMs :: "nat \<Rightarrow> nat" where
  "backoffMs attempts = min 30000 (500 * 2 ^ attempts)"

subsection \<open>The drain, from one await to the next\<close>

text \<open>
  \<^verbatim>\<open>flushQueue\<close> is an \<^verbatim>\<open>async\<close> function: it runs until its next \<^verbatim>\<open>await\<close>, and other
  handlers of the page run before it resumes. Each of the following functions is one such
  stretch. The network is a function \<open>net\<close> from the number of a request (in the order
  the requests are made) to its outcome.

  The call of \<^verbatim>\<open>flushQueue()\<close>: the guard, the flag, and the first read is under way.
\<close>

definition flushQueue_called :: "state \<Rightarrow> state" where
  "flushQueue_called s =
     (if LOG_FLUSHING s \<or> DISCARD_DATA s then s
      else s\<lparr>LOG_FLUSHING := True, drain_pc := Reading\<rparr>)"

text \<open>The \<^verbatim>\<open>finally\<close> block, on every way out of the loop.\<close>

definition drain_ends :: "state \<Rightarrow> state" where
  "drain_ends s = s\<lparr>LOG_FLUSHING := False, drain_pc := Idle\<rparr>"

text \<open>
  \<^verbatim>\<open>await idbReadBatch(LOG_BATCH_SIZE)\<close> resumes (the batch size is the argument \<open>B\<close>). An
  empty batch ends the loop. Otherwise \<^verbatim>\<open>sendBatch(rows)\<close> is called: in discard mode it
  returns \<^verbatim>\<open>true\<close> at once and the loop goes on to delete the batch; else the request is
  made and the loop waits for it.
\<close>

definition read_done :: "nat \<Rightarrow> tx_outcome \<Rightarrow> state \<Rightarrow> state" where
  "read_done B r s =
     (if drain_pc s \<noteq> Reading then s
      else
        case idbReadBatch r B s of
          Inl err \<Rightarrow> drain_ends s
        | Inr batch \<Rightarrow>
            if batch = [] then drain_ends (s\<lparr>LOG_BUFFER := [], LOG_RETRY_ATTEMPTS := 0\<rparr>)
            else if DISCARD_DATA s then s\<lparr>drain_pc := Deleting batch\<rparr>
            else s\<lparr>posted := posted s @ [map row_of batch], drain_pc := Sending batch\<rparr>)"

text \<open>
  \<^verbatim>\<open>await sendBatch(rows)\<close> resumes with the outcome of the request made last. On
  success the delete of the batch is under way; on failure the counter goes up, the
  backoff delay is passed to \<^verbatim>\<open>scheduleFlush\<close>, and the loop ends.
\<close>

definition send_done :: "(nat \<Rightarrow> fetch_result) \<Rightarrow> state \<Rightarrow> state" where
  "send_done net s =
     (case drain_pc s of
        Sending batch \<Rightarrow>
          if okLike (net (length (posted s) - 1)) then s\<lparr>drain_pc := Deleting batch\<rparr>
          else
            let s2 = s\<lparr>LOG_RETRY_ATTEMPTS := LOG_RETRY_ATTEMPTS s + 1\<rparr>
            in drain_ends (scheduleFlush (backoffMs (LOG_RETRY_ATTEMPTS s2)) s2)
      | _ \<Rightarrow> s)"

text \<open>
  \<^verbatim>\<open>await idbDeleteIds(batch)\<close> resumes: the mirror loses as many rows as the batch has,
  the counter is reset, and the next read is under way. An exception (fallback only)
  leaves the loop through \<^verbatim>\<open>finally\<close>.
\<close>

definition delete_done :: "tx_outcome \<Rightarrow> state \<Rightarrow> state" where
  "delete_done r s =
     (case drain_pc s of
        Deleting batch \<Rightarrow>
          (case idbDeleteIds r batch s of
             Inl err \<Rightarrow> drain_ends s
           | Inr s1 \<Rightarrow>
               s1\<lparr>LOG_BUFFER := drop (length batch) (LOG_BUFFER s1),
                  LOG_RETRY_ATTEMPTS := 0, drain_pc := Reading\<rparr>)
      | _ \<Rightarrow> s)"

text \<open>
  The timeout with handle \<open>h\<close> fires: the browser drops it and runs the callback that
  \<^verbatim>\<open>scheduleFlush\<close> registered. A handle that is not pending does nothing.
\<close>

definition timer_fires :: "nat \<Rightarrow> state \<Rightarrow> state" where
  "timer_fires h s =
     (if h \<in> set (map fst (timers s)) then
        flushQueue_called
          (s\<lparr>timers := filter (\<lambda>(h', d). h' \<noteq> h) (timers s), LOG_BACKOFF_TIMER := None\<rparr>)
      else s)"

subsection \<open>The drain when nothing comes in between\<close>

text \<open>
  \<^verbatim>\<open>sendBatch(rows)\<close> with its request answered before anything else happens.
\<close>

definition sendBatch :: "(nat \<Rightarrow> fetch_result) \<Rightarrow> jsval list \<Rightarrow> state \<Rightarrow> bool \<times> state" where
  "sendBatch net rows s =
     (if DISCARD_DATA s then (True, s)
      else (okLike (net (length (posted s))), s\<lparr>posted := posted s @ [rows]\<rparr>))"

text \<open>
  One turn of the \<^verbatim>\<open>for (;;)\<close> loop of \<^verbatim>\<open>flushQueue\<close>, with the batch size \<open>B\<close>, when
  every await resumes before any other handler runs and every storage request completes:
  \<open>Break\<close> where the source leaves the loop, \<open>Continue\<close> where it goes round again.
\<close>

datatype 'a loop = Break 'a | Continue 'a

definition drain_turn :: "nat \<Rightarrow> (nat \<Rightarrow> fetch_result) \<Rightarrow> state \<Rightarrow> state loop" where
  "drain_turn B net s =
     (let batch = read_head B s in
      if batch = [] then Break (s\<lparr>LOG_BUFFER := [], LOG_RETRY_ATTEMPTS := 0\<rparr>)
      else
        let rows = map row_of batch;
            (ok, s1) = sendBatch net rows s
        in if ok then
             Continue ((delete_entries batch s1)
                         \<lparr>LOG_BUFFER := drop (length rows) (LOG_BUFFER s1),
                          LOG_RETRY_ATTEMPTS := 0\<rparr>)
           else
             let s2 = s1\<lparr>LOG_RETRY_ATTEMPTS := LOG_RETRY_ATTEMPTS s1 + 1\<rparr>
             in Break (scheduleFlush (backoffMs (LOG_RETRY_ATTEMPTS s2)) s2))"

definition queue_length :: "state \<Rightarrow> nat" where
  "queue_length s = (if idb_open s then length (events s) else length (log_queue_ls s))"

text \<open>A turn that goes round again has deleted at least one entry.\<close>

lemma drain_turn_decreases:
  assumes "drain_turn B net s = Continue s'"
  shows "queue_length s' < queue_length s"
proof -
  define batch where "batch = read_head B s"
  from assms have ne: "batch \<noteq> []"
    by (auto simp: drain_turn_def Let_def batch_def split: if_splits prod.splits)
  from assms ne have ql: "queue_length s' = queue_length (delete_entries batch s)"
    by (auto simp: drain_turn_def Let_def batch_def sendBatch_def queue_length_def delete_entries_def
             split: if_splits prod.splits)
  show ?thesis
  proof (cases "idb_open s")
    case False
    then have "length batch = min B (length (log_queue_ls s))"
      by (simp add: batch_def read_head_def)
    moreover from ne have "0 < length batch" by simp
    ultimately show ?thesis using False unfolding ql
      by (simp add: queue_length_def delete_entries_def)
  next
    case True
    with ne obtain k r where kr: "(k, r) \<in> set (events s)" "QueueEntry (IdbKey k) r \<in> set batch"
    proof -
      from ne True have "take B (map (\<lambda>(k, r). QueueEntry (IdbKey k) r) (sort_key fst (events s))) \<noteq> []"
        by (simp add: batch_def read_head_def)
      then obtain x where x: "x \<in> set (take B (map (\<lambda>(k, r). QueueEntry (IdbKey k) r) (sort_key fst (events s))))"
        by (cases "take B (map (\<lambda>(k, r). QueueEntry (IdbKey k) r) (sort_key fst (events s)))") auto
      then have "x \<in> set (map (\<lambda>(k, r). QueueEntry (IdbKey k) r) (sort_key fst (events s)))"
        by (rule in_set_takeD)
      then obtain k r where "(k, r) \<in> set (events s)" "x = QueueEntry (IdbKey k) r"
        by auto
      with x True that show ?thesis by (auto simp: batch_def read_head_def)
    qed
    then have "length (filter (\<lambda>(k, r). IdbKey k \<notin> set (map id_of batch)) (events s)) < length (events s)"
      by (intro length_filter_less[of "(k, r)"]) force+
    with True show ?thesis unfolding ql
      by (simp add: queue_length_def delete_entries_def)
  qed
qed

function drain :: "nat \<Rightarrow> (nat \<Rightarrow> fetch_result) \<Rightarrow> state \<Rightarrow> state" where
  "drain B net s = (case drain_turn B net s of Break s' \<Rightarrow> s' | Continue s' \<Rightarrow> drain B net s')"
  by pat_completeness auto
termination
  by (relation "measure (\<lambda>(B, net, s). queue_length s)") (auto simp: drain_turn_decreases)

text \<open>
  \<^verbatim>\<open>flushQueue()\<close> run from its call to its return with nothing in between (with the
  batch size as an argument in \<open>flushQueue_with\<close>). It is the run of the drain above on
  the completions of its own requests alone.
\<close>

definition flushQueue_with :: "nat \<Rightarrow> (nat \<Rightarrow> fetch_result) \<Rightarrow> state \<Rightarrow> state" where
  "flushQueue_with B net s =
     (if LOG_FLUSHING s \<or> DISCARD_DATA s then s
      else (drain B net (s\<lparr>LOG_FLUSHING := True\<rparr>))\<lparr>LOG_FLUSHING := False\<rparr>)"

definition flushQueue :: "(nat \<Rightarrow> fetch_result) \<Rightarrow> state \<Rightarrow> state" where
  "flushQueue net s = flushQueue_with LOG_BATCH_SIZE net s"

subsection \<open>Enqueueing and discarding\<close>

text \<open>
  \<^verbatim>\<open>logEnqueue(rows)\<close>: how the promise settles (\<open>None\<close> resolved, \<open>Some err\<close> rejected
  with \<open>err\<close>) and the state it leaves. The rows are pushed to the mirror at once; the
  write to the store is awaited, and is taken here to end before another handler runs, so
  that the call is one step of the page.
\<close>

definition logEnqueue :: "tx_outcome \<Rightarrow> jsval \<Rightarrow> state \<Rightarrow> js_error option \<times> state" where
  "logEnqueue w rows_arg s =
     (let rows = (case rows_arg of Arr xs \<Rightarrow> xs | v \<Rightarrow> [v]);
          s1 = s\<lparr>LOG_BUFFER := LOG_BUFFER s @ rows\<rparr>
      in case idbPutAll w rows s1 of
           Inl err \<Rightarrow> (Some err, s1)
         | Inr s2 \<Rightarrow> (None, scheduleFlush 250 s2))"

text \<open>
  \<^verbatim>\<open>logTrialRow(d)\<close> for a record \<open>d\<close> with the properties \<open>fs\<close>. The call of
  \<^verbatim>\<open>logEnqueue\<close> is not awaited: a rejection of its promise is not caught here, what it
  did to the state stays.
\<close>

definition logTrialRow :: "env \<Rightarrow> tx_outcome \<Rightarrow> (string \<times> jsval) list \<Rightarrow> state \<Rightarrow> state" where
  "logTrialRow e w fs s =
     (if DISCARD_DATA s then s
      else
        let seq = (case LOG_SEQ s of Some n \<Rightarrow> n | None \<Rightarrow> 1);
            d = Obj (AList.update ''_ts_seq'' (Num (of_nat seq)) fs);
            s1 = s\<lparr>LOG_SEQ := Some (seq + 1)\<rparr>
        in case buildRowsForLogging e [d] (UA_EMITTED s1) of
             (Inl err, flag) \<Rightarrow> s1\<lparr>UA_EMITTED := flag\<rparr>
           | (Inr rows, flag) \<Rightarrow> snd (logEnqueue w (Arr rows) (s1\<lparr>UA_EMITTED := flag\<rparr>)))"

text \<open>
  \<^verbatim>\<open>clearLocalQueue()\<close> empties the mirror at once and the store after an await
  (\<open>clearLocalQueue_done\<close>, with the way the request ends: a failing \<^verbatim>\<open>store.clear()\<close>
  resolves the promise, a failing \<^verbatim>\<open>localStorage\<close> call rejects it and the handler of the
  button catches that; either way the store is as it was). The handler of the discard
  button raises the flag and calls it.
\<close>

definition clearLocalQueue :: "state \<Rightarrow> state" where
  "clearLocalQueue s = s\<lparr>LOG_BUFFER := [], clearing := True\<rparr>"

definition clearLocalQueue_done :: "tx_outcome \<Rightarrow> state \<Rightarrow> state" where
  "clearLocalQueue_done r s =
     (if \<not> clearing s then s
      else
        case r of
          Fails err \<Rightarrow> s\<lparr>clearing := False\<rparr>
        | Completes \<Rightarrow>
            if \<not> idb_open s then s\<lparr>log_queue_ls := [], clearing := False\<rparr>
            else s\<lparr>events := [], clearing := False\<rparr>)"

definition discard_clicked :: "state \<Rightarrow> state" where
  "discard_clicked s = clearLocalQueue (s\<lparr>DISCARD_DATA := True\<rparr>)"

section \<open>Emergency flush\<close>

text \<open>
  The size of the \<^verbatim>\<open>Blob\<close> built from \<^verbatim>\<open>'payload=' + encodeURIComponent(JSON.stringify({rows}))\<close>,
  in bytes, and \<^verbatim>\<open>buf.slice(a, b)\<close>.
\<close>

definition blob_size :: "(rat \<Rightarrow> string) \<Rightarrow> jsval list \<Rightarrow> nat" where
  "blob_size fmt rows =
     length (''payload='' @ encodeURIComponent (json_text fmt (Obj [(''rows'', Arr rows)])))"

definition slice :: "'a list \<Rightarrow> nat \<Rightarrow> nat \<Rightarrow> 'a list" where
  "slice buf a b = take (b - a) (drop a buf)"

definition maxBytes :: nat where
  "maxBytes = 60000"

text \<open>
  The \<^verbatim>\<open>while (end > sliceStart)\<close> loop of \<^verbatim>\<open>flushSyncBeacon\<close>. The blob is known by
  the rows it was built from; the result is the blob the loop ends with (\<open>None\<close> for
  \<^verbatim>\<open>null\<close>). The loop may not end: the function is partial.
\<close>

partial_function (option) shrink ::
  "(rat \<Rightarrow> string) \<Rightarrow> jsval list \<Rightarrow> nat \<Rightarrow> nat \<Rightarrow> jsval list option \<Rightarrow> jsval list option option" where
  "shrink fmt buf sliceStart en blob =
     (if en > sliceStart then
        (if blob_size fmt (slice buf sliceStart en) \<le> maxBytes
         then Some (Some (slice buf sliceStart en))
         else shrink fmt buf sliceStart (max (sliceStart + 1) ((sliceStart + en) div 2))
                (Some (slice buf sliceStart en)))
      else Some blob)"

text \<open>\<^verbatim>\<open>flushSyncBeacon()\<close>: the state when it returns, \<open>None\<close> when it does not return.\<close>

definition flushSyncBeacon :: "env \<Rightarrow> state \<Rightarrow> state option" where
  "flushSyncBeacon e s =
     (let buf = LOG_BUFFER s in
      if buf = [] then Some s
      else
        case shrink (num_to_string e) buf (length buf - LOG_BATCH_SIZE) (length buf) None of
          None \<Rightarrow> None
        | Some blob \<Rightarrow>
            (case blob of
               Some rows \<Rightarrow> Some (if has_sendBeacon s then s\<lparr>beacons := beacons s @ [rows]\<rparr> else s)
             | None \<Rightarrow> Some s))"

section \<open>The page as a state machine\<close>

text \<open>
  What can happen to the pipeline between two states: the trial layer logs a record or
  enqueues rows (with the outcome of the storage write), something calls
  \<^verbatim>\<open>scheduleFlush\<close> (the \<^verbatim>\<open>online\<close> and \<^verbatim>\<open>visibilitychange\<close> listeners, the exit button),
  a timeout fires, a request of the drain ends (the read, the send, the delete), the
  participant discards the data and the store is emptied, the page is hidden
  (\<^verbatim>\<open>pagehide\<close> calls \<^verbatim>\<open>flushSyncBeacon\<close>). A page whose \<^verbatim>\<open>flushSyncBeacon\<close> does not return
  does nothing any more.
\<close>

datatype event =
    TrialLogged "(string \<times> jsval) list" tx_outcome
  | RowsEnqueued jsval tx_outcome
  | FlushRequested nat
  | TimeoutFired nat
  | ReadDone tx_outcome
  | SendDone
  | DeleteDone tx_outcome
  | DiscardClicked
  | StoreCleared tx_outcome
  | PageHidden

definition page_hidden :: "env \<Rightarrow> state \<Rightarrow> state" where
  "page_hidden e s = (case flushSyncBeacon e s of None \<Rightarrow> s\<lparr>hung := True\<rparr> | Some s' \<Rightarrow> s')"

fun handle :: "nat \<Rightarrow> env \<Rightarrow> (nat \<Rightarrow> fetch_result) \<Rightarrow> state \<Rightarrow> event \<Rightarrow> state" where
  "handle B e net s (TrialLogged fs w) = logTrialRow e w fs s"
| "handle B e net s (RowsEnqueued rows w) = snd (logEnqueue w rows s)"
| "handle B e net s (FlushRequested delayMs) = scheduleFlush delayMs s"
| "handle B e net s (TimeoutFired h) = timer_fires h s"
| "handle B e net s (ReadDone r) = read_done B r s"
| "handle B e net s SendDone = send_done net s"
| "handle B e net s (DeleteDone r) = delete_done r s"
| "handle B e net s DiscardClicked = discard_clicked s"
| "handle B e net s (StoreCleared r) = clearLocalQueue_done r s"
| "handle B e net s PageHidden = page_hidden e s"

definition step_with :: "nat \<Rightarrow> env \<Rightarrow> (nat \<Rightarrow> fetch_result) \<Rightarrow> state \<Rightarrow> event \<Rightarrow> state" where
  "step_with B e net s ev = (if hung s then s else handle B e net s ev)"

definition step :: "env \<Rightarrow> (nat \<Rightarrow> fetch_result) \<Rightarrow> state \<Rightarrow> event \<Rightarrow> state" where
  "step e net s ev = step_with LOG_BATCH_SIZE e net s ev"

definition run_with :: "nat \<Rightarrow> env \<Rightarrow> (nat \<Rightarrow> fetch_result) \<Rightarrow> state \<Rightarrow> event list \<Rightarrow> state" where
  "run_with B e net s evs = foldl (step_with B e net) s evs"

definition run :: "env \<Rightarrow> (nat \<Rightarrow> fetch_result) \<Rightarrow> state \<Rightarrow> event list \<Rightarrow> state" where
  "run e net s evs = foldl (step e net) s evs"

text \<open>
  The page after \<^verbatim>\<open>bootstrap()\<close>: nothing queued, no timeout pending, no drain running,
  the first handle and the first key still to be given out (both start at 1 in a
  browser).
\<close>

definition initial :: "bool \<Rightarrow> bool \<Rightarrow> state" where
  "initial idb beacon =
     \<lparr>UA_EMITTED = None, LOG_SEQ = None, DISCARD_DATA = False, LOG_BUFFER = [],
      LOG_RETRY_ATTEMPTS = 0, LOG_FLUSHING = False, LOG_BACKOFF_TIMER = None,
      timers = [], next_handle = 1, idb_open = idb, events = [], next_key = 1,
      log_queue_ls = [], has_sendBeacon = beacon, posted = [], beacons = [],
      drain_pc = Idle, clearing = False, hung = False\<rparr>"

text \<open>The rows waiting in the store, oldest first, for the backend in use.\<close>

definition queue_rows :: "state \<Rightarrow> jsval list" where
  "queue_rows s = (if idb_open s then map snd (sort_key fst (events s)) else log_queue_ls s)"

text \<open>
  The keys of the object store as the auto-increment generator leaves them: ascending in
  the order of insertion, each below the next key to be given out.
\<close>

definition store_ok :: "state \<Rightarrow> bool" where
  "store_ok s = (sorted_wrt (<) (map fst (events s)) \<and> list_all (\<lambda>k. k < next_key s) (map fst (events s)))"

text \<open>
  What holds of the drain in every state the page can reach (\<open>page_ok\<close> below, with the
  keys of the store in order): \<^verbatim>\<open>LOG_FLUSHING\<close> is set exactly while the drain is
  suspended at one of its awaits; the batch it holds while the request is in flight is the
  one posted last; and outside discard mode that batch is not empty and is still the head
  of the store, and a delete is under way only after the request for the batch was
  answered with a success. A clearing of the store is only pending in discard mode.
\<close>

definition drain_ok :: "(nat \<Rightarrow> fetch_result) \<Rightarrow> state \<Rightarrow> bool" where
  "drain_ok net s =
     (LOG_FLUSHING s = (drain_pc s \<noteq> Idle) \<and>
      (case drain_pc s of
         Idle \<Rightarrow> True
       | Reading \<Rightarrow> True
       | Sending b \<Rightarrow>
           posted s \<noteq> [] \<and> last (posted s) = map row_of b
           \<and> (DISCARD_DATA s \<or> (b \<noteq> [] \<and> read_head (length b) s = b))
       | Deleting b \<Rightarrow>
           DISCARD_DATA s
           \<or> (posted s \<noteq> [] \<and> last (posted s) = map row_of b
               \<and> okLike (net (length (posted s) - 1)) \<and> b \<noteq> [] \<and> read_head (length b) s = b)))"

definition page_ok :: "(nat \<Rightarrow> fetch_result) \<Rightarrow> state \<Rightarrow> bool" where
  "page_ok net s = (store_ok s \<and> drain_ok net s \<and> (DISCARD_DATA s \<or> \<not> clearing s))"



text \<open>
  A session of the normalizer: the calls of \<^verbatim>\<open>buildRowsForLogging\<close> one after the other
  on the same page, and the rows each call returns (none when it throws).
\<close>

fun session_rows :: "env \<Rightarrow> bool option \<Rightarrow> jsval list list \<Rightarrow> jsval list list" where
  "session_rows e flag [] = []"
| "session_rows e flag (call # calls) =
     (case buildRowsForLogging e call flag of
        (Inl err, flag') \<Rightarrow> [] # session_rows e flag' calls
      | (Inr rows, flag') \<Rightarrow> rows # session_rows e flag' calls)"

text \<open>The \<^verbatim>\<open>user_agent\<close> fields of a list of rows.\<close>

definition user_agents :: "jsval list \<Rightarrow> jsval list" where
  "user_agents rows = map (\<lambda>r. get_prop r ''user_agent'') rows"

text \<open>The two tests of the callback that end in \<^verbatim>\<open>return null\<close>.\<close>

definition dropped :: "jsval \<Rightarrow> bool" where
  "dropped d =
     ((has IGNORE_TRIAL_TYPES (js_or (get_prop d ''trial_type'') (Str []))
        \<or> \<not> has ALLOW_TYPES (mapEventType d))
      \<or> (get_prop d ''is_demo'' = Bool True \<or> mapEventType d = Str ''training_demo''
          \<or> get_prop d ''trial_type'' = Str ''training_demo''))"

text \<open>
  A record the callback can work on: it is neither \<^verbatim>\<open>null\<close> nor \<^verbatim>\<open>undefined\<close>, and the
  values it may convert to text or to a number can be converted.
\<close>

definition convertible :: "jsval \<Rightarrow> bool" where
  "convertible d =
     (\<not> nullish d \<and> printable (get_prop d ''choice'') \<and> printable (get_prop d ''suggestion'')
      \<and> printable (get_prop d ''_ts_seq'') \<and> printable (get_prop d ''slider_value''))"

text \<open>
  A browser for the examples: a desktop browser outside fullscreen, no \<^verbatim>\<open>CONFIG\<close>;
  numbers in the examples are natural numbers and print as their digits.
\<close>

definition example_env :: env where
  "example_env =
     \<lparr>userAgent = ''Mozilla/5.0'', nowIso = ''2025-01-01T00:00:00.000Z'', CONFIG = Undefined,
      SESSION_ID = ''s1'', fullscreenElement = Null,
      parseUA = (\<lambda>ua. (Str ''desktop'', Str ''Other'', Null)),
      num_to_string = (\<lambda>r. index_key (nat \<lfloor>r\<rfloor>)),
      string_to_num = (\<lambda>t. None), times_1000 = (\<lambda>x. x * 1000),
      JSON_parse = (\<lambda>t. None)\<rparr>"

text \<open>A row that carries \<open>n\<close> characters of free text next to its event type.\<close>

definition big_row :: "nat \<Rightarrow> jsval" where
  "big_row n = Obj [(''event_type'', Str ''door_trial''), (''note'', Str (replicate n CHR ''a''))]"

definition always :: "fetch_result \<Rightarrow> nat \<Rightarrow> fetch_result" where
  "always r k = r"

text \<open>A network that fails the first request and answers every later one with 200.\<close>

definition fails_first :: "nat \<Rightarrow> fetch_result" where
  "fails_first k = (if k = 0 then NetworkError else Response 200 basic)"

text \<open>A record of a door trial with nothing else in it.\<close>

definition door_record :: jsval where
  "door_record = Obj [(''trial_type'', Str ''door'')]"

text \<open>
  One round of retrying with nothing in between: the pending timeout fires, the read of
  the drain it starts ends, and then the request it makes.
\<close>

definition retry_round :: "env \<Rightarrow> (nat \<Rightarrow> fetch_result) \<Rightarrow> state \<Rightarrow> state" where
  "retry_round e net s =
     (case timers s of
        [] \<Rightarrow> s
      | (h, d) # rest \<Rightarrow> run e net s [TimeoutFired h, ReadDone Completes, SendDone])"

text \<open>
  The timeouts as \<^verbatim>\<open>scheduleFlush\<close> keeps them: at most one is pending, and one is
  pending exactly when \<^verbatim>\<open>LOG_BACKOFF_TIMER\<close> holds a handle.
\<close>

definition timers_ok :: "state \<Rightarrow> bool" where
  "timers_ok s = (length (timers s) \<le> 1 \<and> next_handle s \<noteq> 0 \<and> (timers s \<noteq> []) = timer_set s)"

section \<open>Properties of the store and of the drain\<close>

declare drain.simps [simp del]

lemma drain_turn_empty:
  "read_head B s = [] \<Longrightarrow> drain_turn B net s = Break (s\<lparr>LOG_BUFFER := [], LOG_RETRY_ATTEMPTS := 0\<rparr>)"
  by (simp add: drain_turn_def)

lemma drain_turn_ok:
  "read_head B s \<noteq> [] \<Longrightarrow> \<not> DISCARD_DATA s \<Longrightarrow> okLike (net (length (posted s))) \<Longrightarrow>
   drain_turn B net s =
     Continue ((delete_entries (read_head B s) (s\<lparr>posted := posted s @ [map row_of (read_head B s)]\<rparr>))
                 \<lparr>LOG_BUFFER := drop (length (read_head B s)) (LOG_BUFFER s), LOG_RETRY_ATTEMPTS := 0\<rparr>)"
  by (simp add: drain_turn_def sendBatch_def Let_def)

lemma drain_turn_fail:
  "read_head B s \<noteq> [] \<Longrightarrow> \<not> DISCARD_DATA s \<Longrightarrow> \<not> okLike (net (length (posted s))) \<Longrightarrow>
   drain_turn B net s =
     Break (scheduleFlush (backoffMs (LOG_RETRY_ATTEMPTS s + 1))
             (s\<lparr>posted := posted s @ [map row_of (read_head B s)],
                LOG_RETRY_ATTEMPTS := LOG_RETRY_ATTEMPTS s + 1\<rparr>))"
  by (simp add: drain_turn_def sendBatch_def Let_def)

lemma read_head_cong:
  "idb_open s' = idb_open s \<Longrightarrow> events s' = events s \<Longrightarrow> log_queue_ls s' = log_queue_ls s \<Longrightarrow>
   read_head B s' = read_head B s"
  by (simp add: read_head_def)

lemma flushQueue_fail:
  assumes "\<not> LOG_FLUSHING s" "\<not> DISCARD_DATA s" "read_head B s \<noteq> []"
      "\<not> okLike (net (length (posted s)))"
  shows "flushQueue_with B net s =
     scheduleFlush (backoffMs (LOG_RETRY_ATTEMPTS s + 1))
             (s\<lparr>posted := posted s @ [map row_of (read_head B s)],
                LOG_RETRY_ATTEMPTS := LOG_RETRY_ATTEMPTS s + 1\<rparr>)"
proof -
  let ?s = "s\<lparr>LOG_FLUSHING := True\<rparr>"
  have rb: "read_head B ?s = read_head B s" by (simp add: read_head_def)
  have "drain_turn B net ?s = Break (scheduleFlush (backoffMs (LOG_RETRY_ATTEMPTS ?s + 1))
             (?s\<lparr>posted := posted ?s @ [map row_of (read_head B ?s)],
                LOG_RETRY_ATTEMPTS := LOG_RETRY_ATTEMPTS ?s + 1\<rparr>))"
    using assms by (intro drain_turn_fail) (simp_all add: rb)
  then have "drain B net ?s = scheduleFlush (backoffMs (LOG_RETRY_ATTEMPTS ?s + 1))
             (?s\<lparr>posted := posted ?s @ [map row_of (read_head B ?s)],
                LOG_RETRY_ATTEMPTS := LOG_RETRY_ATTEMPTS ?s + 1\<rparr>)"
    by (subst drain.simps) simp
  with assms show ?thesis
    by (simp add: flushQueue_with_def rb scheduleFlush_def timer_set_def)
qed


lemma sorted_events: "store_ok s \<Longrightarrow> sort_key fst (events s) = events s"
  by (simp add: store_ok_def sort_key_id_if_sorted strict_sorted_imp_sorted)

lemma rows_of_entries: "map (row_of \<circ> (\<lambda>(k, r). QueueEntry (f k) r)) xs = map snd xs"
  by (induction xs) auto

lemma read_rows: "map row_of (read_head B s) = take B (queue_rows s)"
  by (simp add: read_head_def queue_rows_def rows_of_entries take_map)




lemma scheduleFlush_frame [simp]:
  "posted (scheduleFlush d s) = posted s"
  "events (scheduleFlush d s) = events s"
  "log_queue_ls (scheduleFlush d s) = log_queue_ls s"
  "idb_open (scheduleFlush d s) = idb_open s"
  "next_key (scheduleFlush d s) = next_key s"
  "DISCARD_DATA (scheduleFlush d s) = DISCARD_DATA s"
  "LOG_BUFFER (scheduleFlush d s) = LOG_BUFFER s"
  "LOG_RETRY_ATTEMPTS (scheduleFlush d s) = LOG_RETRY_ATTEMPTS s"
  "LOG_FLUSHING (scheduleFlush d s) = LOG_FLUSHING s"
  "beacons (scheduleFlush d s) = beacons s"
  by (simp_all add: scheduleFlush_def)

lemma delete_entries_frame [simp]:
  "posted (delete_entries b s) = posted s"
  "idb_open (delete_entries b s) = idb_open s"
  "next_key (delete_entries b s) = next_key s"
  "DISCARD_DATA (delete_entries b s) = DISCARD_DATA s"
  "LOG_BUFFER (delete_entries b s) = LOG_BUFFER s"
  "LOG_RETRY_ATTEMPTS (delete_entries b s) = LOG_RETRY_ATTEMPTS s"
  "LOG_FLUSHING (delete_entries b s) = LOG_FLUSHING s"
  "timers (delete_entries b s) = timers s"
  "next_handle (delete_entries b s) = next_handle s"
  "LOG_BACKOFF_TIMER (delete_entries b s) = LOG_BACKOFF_TIMER s"
  "beacons (delete_entries b s) = beacons s"
  by (simp_all add: delete_entries_def)


lemma store_ok_cong:
  "events s' = events s \<Longrightarrow> next_key s' = next_key s \<Longrightarrow> store_ok s' = store_ok s"
  by (simp add: store_ok_def)

lemma delete_entries_cong:
  "idb_open s' = idb_open s \<Longrightarrow> events s' = events s \<Longrightarrow> log_queue_ls s' = log_queue_ls s \<Longrightarrow>
   events (delete_entries b s') = events (delete_entries b s) \<and>
   log_queue_ls (delete_entries b s') = log_queue_ls (delete_entries b s)"
  by (simp add: delete_entries_def)












lemma store_ok_put:
  assumes "store_ok s"
  shows "store_ok (s\<lparr>events := events s @ zip [next_key s ..< next_key s + length rows] rows,
                    next_key := next_key s + length rows\<rparr>)"
proof -
  have k: "map fst (zip [next_key s ..< next_key s + length rows] rows) = [next_key s ..< next_key s + length rows]"
    by simp
  have "sorted_wrt (<) (map fst (events s) @ [next_key s ..< next_key s + length rows])"
    using assms by (auto simp: store_ok_def sorted_wrt_append list_all_iff)
  moreover have "list_all (\<lambda>k. k < next_key s + length rows) (map fst (events s) @ [next_key s ..< next_key s + length rows])"
    using assms by (auto simp: store_ok_def list_all_iff)
  ultimately show ?thesis by (simp add: store_ok_def k)
qed

lemma store_ok_logEnqueue: "store_ok s \<Longrightarrow> store_ok (snd (logEnqueue w rows s))"
proof -
  assume a: "store_ok s"
  let ?rows = "(case rows of Arr xs \<Rightarrow> xs | v \<Rightarrow> [v])"
  let ?s1 = "s\<lparr>LOG_BUFFER := LOG_BUFFER s @ ?rows\<rparr>"
  have s1: "store_ok ?s1" using a by (simp add: store_ok_def)
  have "store_ok (?s1\<lparr>events := events ?s1 @ zip [next_key ?s1 ..< next_key ?s1 + length ?rows] ?rows,
                    next_key := next_key ?s1 + length ?rows\<rparr>)"
    using s1 by (rule store_ok_put)
  then show ?thesis using s1
    by (auto simp: logEnqueue_def idbPutAll_def Let_def store_ok_def scheduleFlush_def split: tx_outcome.splits)
qed

lemma queue_rows_logEnqueue:
  assumes "store_ok s"
  shows "queue_rows (snd (logEnqueue Completes (Arr rows) s))
     = queue_rows s @ (if idb_open s then rows else map json_image rows)"
proof (cases "idb_open s")
  case False
  then show ?thesis
    by (simp add: logEnqueue_def idbPutAll_def Let_def queue_rows_def scheduleFlush_def)
next
  case True
  have "store_ok (snd (logEnqueue Completes (Arr rows) s))" using assms by (rule store_ok_logEnqueue)
  then have "sort_key fst (events (snd (logEnqueue Completes (Arr rows) s))) = events (snd (logEnqueue Completes (Arr rows) s))"
    by (rule sorted_events)
  moreover have "events (snd (logEnqueue Completes (Arr rows) s)) = events s @ zip [next_key s ..< next_key s + length rows] rows"
    using True by (simp add: logEnqueue_def idbPutAll_def Let_def scheduleFlush_def)
  moreover have "idb_open (snd (logEnqueue Completes (Arr rows) s))"
    using True by (simp add: logEnqueue_def idbPutAll_def Let_def scheduleFlush_def)
  ultimately show ?thesis using True sorted_events[OF assms]
    by (simp add: queue_rows_def)
qed

subsection \<open>What holds in every state the page can reach\<close>

lemma page_ok_cong:
  assumes "idb_open s' = idb_open s" "events s' = events s" "log_queue_ls s' = log_queue_ls s"
    "next_key s' = next_key s" "LOG_FLUSHING s' = LOG_FLUSHING s" "drain_pc s' = drain_pc s"
    "posted s' = posted s" "DISCARD_DATA s' = DISCARD_DATA s" "clearing s' = clearing s"
  shows "page_ok net s' = page_ok net s"
proof -
  have "read_head n s' = read_head n s" for n using assms(1-3) by (rule read_head_cong)
  moreover have "store_ok s' = store_ok s" using assms(2,4) by (rule store_ok_cong)
  ultimately show ?thesis using assms
    by (cases "drain_pc s") (simp_all add: page_ok_def drain_ok_def)
qed


lemma scheduleFlush_frame2 [simp]:
  "drain_pc (scheduleFlush d s) = drain_pc s"
  "clearing (scheduleFlush d s) = clearing s"
  "hung (scheduleFlush d s) = hung s"
  "has_sendBeacon (scheduleFlush d s) = has_sendBeacon s"
  "LOG_FLUSHING (scheduleFlush d s) = LOG_FLUSHING s"
  "LOG_BUFFER (scheduleFlush d s) = LOG_BUFFER s"
  "beacons (scheduleFlush d s) = beacons s"
  "LOG_RETRY_ATTEMPTS (scheduleFlush d s) = LOG_RETRY_ATTEMPTS s"
  by (simp_all add: scheduleFlush_def)

lemma page_ok_scheduleFlush: "page_ok net (scheduleFlush d s) = page_ok net s"
  by (rule page_ok_cong) simp_all

text \<open>Rows appended at the end of the queue leave its head as it is.\<close>

lemma length_read_head: "length (read_head n s) = min n (length (queue_rows s))"
  using read_rows[of n s] by (metis length_map length_take min.commute)

lemma read_head_again: "read_head (length (read_head n s)) s = read_head n s"
  by (cases "idb_open s") (simp_all add: read_head_def min_def)

lemma put_keeps_head:
  assumes "store_ok s" "idbPutAll w rows s = Inr s2" "n \<le> length (queue_rows s)"
  shows "read_head n s2 = read_head n s"
    and "\<exists>new. queue_rows s2 = queue_rows s @ new"
    and "store_ok s2"
proof -
  let ?new = "zip [next_key s ..< next_key s + length rows] rows"
  let ?t = "s\<lparr>events := events s @ ?new, next_key := next_key s + length rows\<rparr>"
  have ok: "store_ok ?t" using assms(1) by (rule store_ok_put)
  have se: "sort_key fst (events s) = events s" using assms(1) by (rule sorted_events)
  have "sort_key fst (events ?t) = events ?t" using ok by (rule sorted_events)
  then have st: "sort_key fst (events s @ ?new) = events s @ ?new" by simp
  have "read_head n s2 = read_head n s \<and> (\<exists>new. queue_rows s2 = queue_rows s @ new) \<and> store_ok s2"
  proof (cases "idb_open s")
    case False
    show ?thesis
    proof (cases w)
      case Completes
      then have "s2 = s\<lparr>log_queue_ls := log_queue_ls s @ map json_image rows\<rparr>"
        using assms(2) False by (simp add: idbPutAll_def)
      then show ?thesis using assms(1,3) False by (simp add: read_head_def queue_rows_def store_ok_def)
    next
      case (Fails err)
      then show ?thesis using assms(2) False by (simp add: idbPutAll_def)
    qed
  next
    case True
    show ?thesis
    proof (cases w)
      case Completes
      then have s2: "s2 = ?t" using assms(2) True by (simp add: idbPutAll_def)
      have n: "n \<le> length (events s)" using assms(3) True by (simp add: queue_rows_def)
      have "read_head n s2 = read_head n s"
        unfolding s2 using True n by (simp add: read_head_def st se)
      moreover have "queue_rows s2 = queue_rows s @ map snd ?new"
        unfolding s2 using True by (simp add: queue_rows_def st se)
      ultimately show ?thesis using ok s2 by blast
    next
      case (Fails err)
      then have "s2 = s" using assms(2) True by (simp add: idbPutAll_def)
      then show ?thesis using assms(1) by simp
    qed
  qed
  then show "read_head n s2 = read_head n s" "\<exists>new. queue_rows s2 = queue_rows s @ new" "store_ok s2"
    by blast+
qed

lemma idbPutAll_frame:
  assumes "idbPutAll w rows s = Inr s2"
  shows "idb_open s2 = idb_open s" "LOG_FLUSHING s2 = LOG_FLUSHING s" "drain_pc s2 = drain_pc s"
    "posted s2 = posted s" "DISCARD_DATA s2 = DISCARD_DATA s" "clearing s2 = clearing s"
    "LOG_BUFFER s2 = LOG_BUFFER s" "timers s2 = timers s" "beacons s2 = beacons s" "hung s2 = hung s"
    "LOG_RETRY_ATTEMPTS s2 = LOG_RETRY_ATTEMPTS s" "has_sendBeacon s2 = has_sendBeacon s"
  using assms by (auto simp: idbPutAll_def split: if_splits tx_outcome.splits)

lemma page_ok_head:
  assumes "page_ok net s"
  shows "case drain_pc s of Sending b \<Rightarrow> DISCARD_DATA s \<or> length b \<le> length (queue_rows s)
         | Deleting b \<Rightarrow> DISCARD_DATA s \<or> length b \<le> length (queue_rows s) | _ \<Rightarrow> True"
proof -
  have "read_head (length b) s = b \<Longrightarrow> length b \<le> length (queue_rows s)" for b
    using length_read_head[of "length b" s] by simp
  then show ?thesis using assms
    by (cases "drain_pc s") (auto simp: page_ok_def drain_ok_def)
qed

lemma page_ok_put:
  assumes "page_ok net s" "idbPutAll w rows s = Inr s2"
  shows "page_ok net s2"
proof -
  note fr = idbPutAll_frame[OF assms(2)]
  have so: "store_ok s" using assms(1) by (simp add: page_ok_def)
  have so2: "store_ok s2" using put_keeps_head(3)[OF so assms(2), of 0] by simp
  have hd: "read_head (length b) s = b \<Longrightarrow> read_head (length b) s2 = b" for b
  proof -
    assume a: "read_head (length b) s = b"
    have "length b \<le> length (queue_rows s)" using length_read_head[of "length b" s] a by simp
    from put_keeps_head(1)[OF so assms(2) this] a show ?thesis by simp
  qed
  show ?thesis
  proof (cases "drain_pc s")
    case Idle
    then show ?thesis using assms(1) so2 by (simp add: page_ok_def drain_ok_def fr)
  next
    case Reading
    then show ?thesis using assms(1) so2 by (simp add: page_ok_def drain_ok_def fr)
  next
    case (Sending b)
    then show ?thesis using assms(1) so2 hd[of b] by (auto simp add: page_ok_def drain_ok_def fr)
  next
    case (Deleting b)
    then show ?thesis using assms(1) so2 hd[of b] by (auto simp add: page_ok_def drain_ok_def fr)
  qed
qed

lemma page_ok_buffer: "page_ok net (s\<lparr>LOG_BUFFER := b\<rparr>) = page_ok net s"
  by (rule page_ok_cong) simp_all

lemma page_ok_logEnqueue:
  assumes "page_ok net s"
  shows "page_ok net (snd (logEnqueue w rows s))"
proof -
  define s1 where "s1 = s\<lparr>LOG_BUFFER := LOG_BUFFER s @ (case rows of Arr xs \<Rightarrow> xs | v \<Rightarrow> [v])\<rparr>"
  have p1: "page_ok net s1" using assms unfolding s1_def by (simp only: page_ok_buffer)
  show ?thesis
  proof (cases "idbPutAll w (case rows of Arr xs \<Rightarrow> xs | v \<Rightarrow> [v]) s1")
    case (Inl err)
    then show ?thesis using p1 by (simp add: logEnqueue_def Let_def s1_def)
  next
    case (Inr s2)
    have "page_ok net s2" using p1 Inr by (rule page_ok_put)
    then show ?thesis using Inr by (simp add: logEnqueue_def Let_def s1_def page_ok_scheduleFlush)
  qed
qed


lemma page_ok_logTrialRow:
  assumes "page_ok net s"
  shows "page_ok net (logTrialRow e w fs s)"
proof (cases "DISCARD_DATA s")
  case True
  then show ?thesis using assms by (simp add: logTrialRow_def)
next
  case False
  have c: "page_ok net (s\<lparr>LOG_SEQ := q, UA_EMITTED := f\<rparr>)" for q f
    using assms page_ok_cong[of "s\<lparr>LOG_SEQ := q, UA_EMITTED := f\<rparr>" s net] by simp
  show ?thesis using False c
    by (simp add: logTrialRow_def Let_def page_ok_logEnqueue split: prod.splits sum.splits)
qed

lemma page_ok_flushQueue_called: "page_ok net s \<Longrightarrow> page_ok net (flushQueue_called s)"
  by (cases "drain_pc s") (auto simp: flushQueue_called_def page_ok_def drain_ok_def store_ok_def)

lemma page_ok_timer_fires:
  assumes "page_ok net s"
  shows "page_ok net (timer_fires h s)"
proof -
  have "page_ok net (s\<lparr>timers := ts, LOG_BACKOFF_TIMER := None\<rparr>)" for ts
    using assms page_ok_cong[of "s\<lparr>timers := ts, LOG_BACKOFF_TIMER := None\<rparr>" s net] by simp
  then show ?thesis using assms by (simp add: timer_fires_def page_ok_flushQueue_called)
qed

lemma page_ok_drain_ends:
  "store_ok s \<Longrightarrow> DISCARD_DATA s \<or> \<not> clearing s \<Longrightarrow> page_ok net (drain_ends s)"
  by (simp add: page_ok_def drain_ok_def drain_ends_def store_ok_def)

lemma page_ok_read_done:
  assumes "page_ok net s"
  shows "page_ok net (read_done B r s)"
proof (cases "drain_pc s = Reading")
  case False
  then show ?thesis using assms by (simp add: read_done_def)
next
  case True
  have so: "store_ok s" and cl: "DISCARD_DATA s \<or> \<not> clearing s" and fl: "LOG_FLUSHING s"
    using assms True by (simp_all add: page_ok_def drain_ok_def)
  show ?thesis
  proof (cases "idbReadBatch r B s")
    case (Inl err)
    then show ?thesis using True so cl by (simp add: read_done_def page_ok_drain_ends)
  next
    case (Inr batch)
    show ?thesis
    proof (cases "batch = []")
      case True
      have "page_ok net (drain_ends (s\<lparr>LOG_BUFFER := [], LOG_RETRY_ATTEMPTS := 0\<rparr>))"
        using so cl by (intro page_ok_drain_ends) (simp_all add: store_ok_def)
      then show ?thesis using True Inr \<open>drain_pc s = Reading\<close> by (simp add: read_done_def)
    next
      case False
      then have b: "batch = read_head B s"
        using Inr by (auto simp: idbReadBatch_def split: if_splits tx_outcome.splits)
      have h: "read_head (length batch) s = batch" unfolding b by (rule read_head_again)
      have eq: "read_head n (s\<lparr>posted := p, drain_pc := c\<rparr>) = read_head n s" for n p c
        by (rule read_head_cong) simp_all
      show ?thesis
        using False Inr \<open>drain_pc s = Reading\<close> so cl fl h
        by (auto simp add: read_done_def page_ok_def drain_ok_def store_ok_def eq)
    qed
  qed
qed

lemma page_ok_send_done:
  assumes "page_ok net s"
  shows "page_ok net (send_done net s)"
proof (cases "drain_pc s")
  case (Sending b)
  have so: "store_ok s" and cl: "DISCARD_DATA s \<or> \<not> clearing s"
    using assms by (simp_all add: page_ok_def)
  show ?thesis
  proof (cases "okLike (net (length (posted s) - 1))")
    case True
    have eq: "read_head n (s\<lparr>drain_pc := c\<rparr>) = read_head n s" for n c
      by (rule read_head_cong) simp_all
    show ?thesis using True Sending assms
      by (auto simp add: send_done_def page_ok_def drain_ok_def store_ok_def eq)
  next
    case False
    let ?s2 = "s\<lparr>LOG_RETRY_ATTEMPTS := LOG_RETRY_ATTEMPTS s + 1\<rparr>"
    have "page_ok net (drain_ends (scheduleFlush (backoffMs (LOG_RETRY_ATTEMPTS ?s2)) ?s2))"
      using so cl by (intro page_ok_drain_ends) (simp_all add: store_ok_def)
    then show ?thesis using False Sending by (simp add: send_done_def Let_def)
  qed
qed (use assms in \<open>simp_all add: send_done_def\<close>)

lemma store_ok_delete: "store_ok s \<Longrightarrow> store_ok (delete_entries b s)"
proof -
  assume a: "store_ok s"
  have 1: "sorted_wrt (<) (map fst (filter P xs))" if "sorted_wrt (<) (map fst xs)" for P and xs :: "(nat \<times> jsval) list"
    using that by (induction xs) auto
  have 2: "list_all Q (map fst (filter P xs))" if "list_all Q (map fst xs)" for P Q and xs :: "(nat \<times> jsval) list"
    using that by (induction xs) auto
  show ?thesis using a 1 2 by (simp add: store_ok_def delete_entries_def)
qed

lemma delete_entries_frame2 [simp]:
  "clearing (delete_entries b s) = clearing s"
  "hung (delete_entries b s) = hung s"
  "LOG_FLUSHING (delete_entries b s) = LOG_FLUSHING s"
  "drain_pc (delete_entries b s) = drain_pc s"
  "timers (delete_entries b s) = timers s"
  "beacons (delete_entries b s) = beacons s"
  "has_sendBeacon (delete_entries b s) = has_sendBeacon s"
  by (simp_all add: delete_entries_def)

lemma idbDeleteIds_cases:
  assumes "idbDeleteIds r b s = Inr s1"
  shows "s1 = s \<or> s1 = delete_entries b s"
  using assms by (auto simp: idbDeleteIds_def split: if_splits tx_outcome.splits)

lemma page_ok_reading:
  "store_ok s \<Longrightarrow> DISCARD_DATA s \<or> \<not> clearing s \<Longrightarrow> LOG_FLUSHING s \<Longrightarrow>
   page_ok net (s\<lparr>LOG_BUFFER := b, LOG_RETRY_ATTEMPTS := 0, drain_pc := Reading\<rparr>)"
  by (simp add: page_ok_def drain_ok_def store_ok_def)

lemma page_ok_delete_done:
  assumes "page_ok net s"
  shows "page_ok net (delete_done r s)"
proof (cases "drain_pc s")
  case (Deleting b)
  have so: "store_ok s" and cl: "DISCARD_DATA s \<or> \<not> clearing s" and fl: "LOG_FLUSHING s"
    using assms Deleting by (simp_all add: page_ok_def drain_ok_def)
  show ?thesis
  proof (cases "idbDeleteIds r b s")
    case (Inl err)
    then show ?thesis using Deleting so cl by (simp add: delete_done_def page_ok_drain_ends)
  next
    case (Inr s1)
    from idbDeleteIds_cases[OF Inr] have "store_ok s1 \<and> (DISCARD_DATA s1 \<or> \<not> clearing s1) \<and> LOG_FLUSHING s1"
      using so cl fl store_ok_delete[OF so, of b] by auto
    then show ?thesis using Deleting Inr by (simp add: delete_done_def page_ok_reading)
  qed
qed (use assms in \<open>simp_all add: delete_done_def\<close>)

lemma page_ok_discard_clicked: "page_ok net s \<Longrightarrow> page_ok net (discard_clicked s)"
  by (cases "drain_pc s")
     (simp_all add: discard_clicked_def clearLocalQueue_def page_ok_def drain_ok_def store_ok_def)

lemma page_ok_clearLocalQueue_done: "page_ok net s \<Longrightarrow> page_ok net (clearLocalQueue_done r s)"
  by (cases "drain_pc s"; cases r)
     (auto simp add: clearLocalQueue_done_def page_ok_def drain_ok_def store_ok_def)

lemma flushSyncBeacon_cases:
  assumes "flushSyncBeacon e s = Some s'"
  shows "s' = s \<or> (\<exists>rows. s' = s\<lparr>beacons := beacons s @ [rows]\<rparr>)"
  using assms by (auto simp: flushSyncBeacon_def Let_def split: if_splits option.splits)

lemma page_ok_page_hidden:
  assumes "page_ok net s"
  shows "page_ok net (page_hidden e s)"
proof (cases "flushSyncBeacon e s")
  case None
  have "page_ok net (s\<lparr>hung := True\<rparr>) = page_ok net s" by (rule page_ok_cong) simp_all
  then show ?thesis using None assms by (simp add: page_hidden_def)
next
  case (Some s')
  have "page_ok net (s\<lparr>beacons := b\<rparr>) = page_ok net s" for b by (rule page_ok_cong) simp_all
  then show ?thesis using Some assms flushSyncBeacon_cases[OF Some] by (auto simp add: page_hidden_def)
qed

lemma page_ok_step_with: "page_ok net s \<Longrightarrow> page_ok net (step_with B e net s ev)"
  by (cases ev)
     (simp_all add: step_with_def page_ok_logTrialRow page_ok_logEnqueue page_ok_scheduleFlush
        page_ok_timer_fires page_ok_read_done page_ok_send_done page_ok_delete_done
        page_ok_discard_clicked page_ok_clearLocalQueue_done page_ok_page_hidden)

lemma page_ok_run_with: "page_ok net s \<Longrightarrow> page_ok net (run_with B e net s evs)"
  unfolding run_with_def by (induction evs arbitrary: s) (simp_all add: page_ok_step_with)



subsection \<open>The drain, step by step\<close>

lemma queue_rows_upd [simp]:
  "queue_rows (s\<lparr>LOG_BUFFER := b\<rparr>) = queue_rows s"
  "queue_rows (s\<lparr>LOG_RETRY_ATTEMPTS := n\<rparr>) = queue_rows s"
  "queue_rows (s\<lparr>LOG_FLUSHING := f\<rparr>) = queue_rows s"
  "queue_rows (s\<lparr>drain_pc := c\<rparr>) = queue_rows s"
  "queue_rows (s\<lparr>posted := p\<rparr>) = queue_rows s"
  "queue_rows (s\<lparr>timers := ts\<rparr>) = queue_rows s"
  "queue_rows (s\<lparr>LOG_BACKOFF_TIMER := t\<rparr>) = queue_rows s"
  "queue_rows (s\<lparr>DISCARD_DATA := d\<rparr>) = queue_rows s"
  "queue_rows (s\<lparr>clearing := c'\<rparr>) = queue_rows s"
  "queue_rows (s\<lparr>hung := h\<rparr>) = queue_rows s"
  "queue_rows (s\<lparr>beacons := bs\<rparr>) = queue_rows s"
  "queue_rows (s\<lparr>LOG_SEQ := q\<rparr>) = queue_rows s"
  "queue_rows (s\<lparr>UA_EMITTED := u\<rparr>) = queue_rows s"
  "queue_rows (s\<lparr>next_handle := nh\<rparr>) = queue_rows s"
  by (simp_all add: queue_rows_def)

lemma queue_rows_scheduleFlush [simp]: "queue_rows (scheduleFlush d s) = queue_rows s"
  by (simp add: scheduleFlush_def)

lemma queue_rows_drain_ends [simp]: "queue_rows (drain_ends s) = queue_rows s"
  by (simp add: drain_ends_def)

lemma queue_rows_flushQueue_called [simp]: "queue_rows (flushQueue_called s) = queue_rows s"
  by (simp add: flushQueue_called_def)

lemma queue_rows_timer_fires [simp]: "queue_rows (timer_fires h s) = queue_rows s"
  by (simp add: timer_fires_def)

lemma queue_rows_read_done [simp]: "queue_rows (read_done B r s) = queue_rows s"
  by (simp add: read_done_def split: sum.splits)

lemma queue_rows_send_done [simp]: "queue_rows (send_done net s) = queue_rows s"
  by (simp add: send_done_def Let_def split: drain_pc.splits)

lemma queue_rows_discard_clicked [simp]: "queue_rows (discard_clicked s) = queue_rows s"
  by (simp add: discard_clicked_def clearLocalQueue_def)

lemma queue_rows_page_hidden [simp]: "queue_rows (page_hidden e s) = queue_rows s"
proof (cases "flushSyncBeacon e s")
  case None
  then show ?thesis by (simp add: page_hidden_def)
next
  case (Some s')
  then show ?thesis using flushSyncBeacon_cases[OF Some] by (auto simp: page_hidden_def)
qed








lemma send_done_ok:
  "drain_pc s = Sending b \<Longrightarrow> okLike (net (length (posted s) - 1)) \<Longrightarrow>
   send_done net s = s\<lparr>drain_pc := Deleting b\<rparr>"
  by (simp add: send_done_def)

lemma send_done_failed:
  "drain_pc s = Sending b \<Longrightarrow> \<not> okLike (net (length (posted s) - 1)) \<Longrightarrow>
   send_done net s = drain_ends (scheduleFlush (backoffMs (LOG_RETRY_ATTEMPTS s + 1))
                                   (s\<lparr>LOG_RETRY_ATTEMPTS := LOG_RETRY_ATTEMPTS s + 1\<rparr>))"
  by (simp add: send_done_def Let_def)

lemma read_done_sends:
  assumes "drain_pc s = Reading" "\<not> DISCARD_DATA s" "queue_rows s \<noteq> []" "B \<noteq> 0"
  shows "read_done B Completes s
           = s\<lparr>posted := posted s @ [take B (queue_rows s)], drain_pc := Sending (read_head B s)\<rparr>"
proof -
  have "map row_of (read_head B s) \<noteq> []" using assms(3,4) by (simp add: read_rows)
  then have ne: "read_head B s \<noteq> []" by auto
  have "idbReadBatch Completes B s = Inr (read_head B s)" by (simp add: idbReadBatch_def)
  then show ?thesis using assms(1,2) ne by (simp add: read_done_def read_rows)
qed


subsection \<open>The drain with nothing in between\<close>

text \<open>
  The uninterrupted drain is the machine run on the completions of its own requests.
\<close>

lemma run_with_append: "run_with B e net s (xs @ ys) = run_with B e net (run_with B e net s xs) ys"
  by (simp add: run_with_def)

lemma run_with_Cons: "run_with B e net s (x # xs) = run_with B e net (step_with B e net s x) xs"
  by (simp add: run_with_def)

lemma run_with_Nil: "run_with B e net s [] = s"
  by (simp add: run_with_def)

lemma drain_hung [simp]: "hung (drain B net s) = hung s"
proof (induction B net s rule: drain.induct)
  case (1 B net s)
  show ?case
  proof (cases "drain_turn B net s")
    case (Break s')
    then have "hung s' = hung s"
      by (auto simp: drain_turn_def Let_def sendBatch_def split: if_splits)
    then show ?thesis using Break by (subst drain.simps) simp
  next
    case (Continue s')
    then have "hung s' = hung s"
      by (auto simp: drain_turn_def Let_def sendBatch_def split: if_splits)
    then show ?thesis using Continue 1 by (subst drain.simps) simp
  qed
qed

lemma drain_pc_drain [simp]: "drain_pc (drain B net s) = drain_pc s"
proof (induction B net s rule: drain.induct)
  case (1 B net s)
  show ?case
  proof (cases "drain_turn B net s")
    case (Break s')
    then have "drain_pc s' = drain_pc s"
      by (auto simp: drain_turn_def Let_def sendBatch_def split: if_splits)
    then show ?thesis using Break by (subst drain.simps) simp
  next
    case (Continue s')
    then have "drain_pc s' = drain_pc s"
      by (auto simp: drain_turn_def Let_def sendBatch_def split: if_splits)
    then show ?thesis using Continue 1 by (subst drain.simps) simp
  qed
qed

lemma drain_is_run:
  assumes "\<not> DISCARD_DATA s" "\<not> hung s"
  shows "\<exists>evs. set evs \<subseteq> {ReadDone Completes, SendDone, DeleteDone Completes}
           \<and> run_with B e net (s\<lparr>drain_pc := Reading\<rparr>) evs
               = (drain B net s)\<lparr>LOG_FLUSHING := False, drain_pc := Idle\<rparr>"
  using assms
proof (induction B net s rule: drain.induct)
  case (1 B net s)
  let ?m = "s\<lparr>drain_pc := Reading\<rparr>"
  have rh: "read_head B ?m = read_head B s" by (rule read_head_cong) simp_all
  have rd: "idbReadBatch Completes B ?m = Inr (read_head B s)"
    by (simp add: idbReadBatch_def rh)
  show ?case
  proof (cases "read_head B s = []")
    case True
    have "drain B net s = s\<lparr>LOG_BUFFER := [], LOG_RETRY_ATTEMPTS := 0\<rparr>"
      by (subst drain.simps) (simp add: drain_turn_empty[OF True])
    moreover have "step_with B e net ?m (ReadDone Completes)
        = s\<lparr>LOG_BUFFER := [], LOG_RETRY_ATTEMPTS := 0, LOG_FLUSHING := False, drain_pc := Idle\<rparr>"
      using 1(3) True by (simp add: step_with_def read_done_def rd drain_ends_def)
    ultimately have "run_with B e net ?m [ReadDone Completes]
        = (drain B net s)\<lparr>LOG_FLUSHING := False, drain_pc := Idle\<rparr>"
      by (simp add: run_with_Cons run_with_Nil)
    then show ?thesis by (intro exI[of _ "[ReadDone Completes]"]) simp
  next
    case False
    let ?b = "read_head B s"
    let ?m1 = "s\<lparr>posted := posted s @ [map row_of ?b], drain_pc := Sending ?b\<rparr>"
    have s1: "step_with B e net ?m (ReadDone Completes) = ?m1"
      using 1(2,3) False by (simp add: step_with_def read_done_def rd)
    show ?thesis
    proof (cases "okLike (net (length (posted s)))")
      case True
      let ?s' = "(delete_entries ?b (s\<lparr>posted := posted s @ [map row_of ?b]\<rparr>))
                 \<lparr>LOG_BUFFER := drop (length ?b) (LOG_BUFFER s), LOG_RETRY_ATTEMPTS := 0\<rparr>"
      have t: "drain_turn B net s = Continue ?s'"
        using drain_turn_ok[where net = net, OF False 1(2) True] by simp
      have d: "drain B net s = drain B net ?s'"
        by (subst drain.simps) (simp add: t)
      have s2: "step_with B e net ?m1 SendDone = ?m1\<lparr>drain_pc := Deleting ?b\<rparr>"
        using 1(3) True by (simp add: step_with_def send_done_def)
      have s3: "step_with B e net (?m1\<lparr>drain_pc := Deleting ?b\<rparr>) (DeleteDone Completes)
                  = ?s'\<lparr>drain_pc := Reading\<rparr>"
        using 1(3) by (simp add: step_with_def delete_done_def idbDeleteIds_def delete_entries_def)
      have "\<not> DISCARD_DATA ?s'" "\<not> hung ?s'" using 1(2,3) by simp_all
      from 1(1)[OF t this] obtain evs where
        evs: "set evs \<subseteq> {ReadDone Completes, SendDone, DeleteDone Completes}"
          "run_with B e net (?s'\<lparr>drain_pc := Reading\<rparr>) evs
             = (drain B net ?s')\<lparr>LOG_FLUSHING := False, drain_pc := Idle\<rparr>"
        by blast
      have "run_with B e net ?m ([ReadDone Completes, SendDone, DeleteDone Completes] @ evs)
              = (drain B net s)\<lparr>LOG_FLUSHING := False, drain_pc := Idle\<rparr>"
        unfolding run_with_append d
        by (simp only: run_with_Cons run_with_Nil s1 s2 s3 evs(2))
      then show ?thesis using evs(1)
        by (intro exI[of _ "[ReadDone Completes, SendDone, DeleteDone Completes] @ evs"]) simp
    next
      case nok: False
      have t: "drain_turn B net s = Break (scheduleFlush (backoffMs (LOG_RETRY_ATTEMPTS s + 1))
             (s\<lparr>posted := posted s @ [map row_of ?b],
                LOG_RETRY_ATTEMPTS := LOG_RETRY_ATTEMPTS s + 1\<rparr>))"
        using drain_turn_fail[where net = net, OF False 1(2) nok] .
      have d: "drain B net s = scheduleFlush (backoffMs (LOG_RETRY_ATTEMPTS s + 1))
             (s\<lparr>posted := posted s @ [map row_of ?b],
                LOG_RETRY_ATTEMPTS := LOG_RETRY_ATTEMPTS s + 1\<rparr>)"
        by (subst drain.simps) (simp add: t)
      have s2: "step_with B e net ?m1 SendDone = (drain B net s)\<lparr>LOG_FLUSHING := False, drain_pc := Idle\<rparr>"
        unfolding d using 1(3) nok
        by (simp add: step_with_def send_done_def Let_def drain_ends_def scheduleFlush_def timer_set_def)
      have "run_with B e net ?m [ReadDone Completes, SendDone]
              = (drain B net s)\<lparr>LOG_FLUSHING := False, drain_pc := Idle\<rparr>"
        by (simp only: run_with_Cons run_with_Nil s1 s2)
      then show ?thesis by (intro exI[of _ "[ReadDone Completes, SendDone]"]) simp
    qed
  qed
qed

lemma flushQueue_with_is_run:
  assumes "\<not> hung s" "drain_pc s = Idle"
  shows "\<exists>evs. set evs \<subseteq> {ReadDone Completes, SendDone, DeleteDone Completes}
           \<and> run_with B e net (flushQueue_called s) evs = flushQueue_with B net s"
proof (cases "LOG_FLUSHING s \<or> DISCARD_DATA s")
  case True
  then show ?thesis
    by (intro exI[of _ "[]"]) (simp add: flushQueue_called_def flushQueue_with_def run_with_Nil)
next
  case False
  let ?a = "s\<lparr>LOG_FLUSHING := True\<rparr>"
  have "\<not> DISCARD_DATA ?a" "\<not> hung ?a" using False assms by simp_all
  from drain_is_run[OF this, of B e net] obtain evs where
    evs: "set evs \<subseteq> {ReadDone Completes, SendDone, DeleteDone Completes}"
      "run_with B e net (?a\<lparr>drain_pc := Reading\<rparr>) evs
         = (drain B net ?a)\<lparr>LOG_FLUSHING := False, drain_pc := Idle\<rparr>"
    by blast
  have pc: "drain_pc ((drain B net ?a)\<lparr>LOG_FLUSHING := False\<rparr>) = Idle" using assms(2) by simp
  have "(drain B net ?a)\<lparr>LOG_FLUSHING := False, drain_pc := Idle\<rparr> = (drain B net ?a)\<lparr>LOG_FLUSHING := False\<rparr>"
    using pc by (cases "drain B net ?a") simp
  then show ?thesis using evs False
    by (intro exI[of _ evs]) (simp add: flushQueue_called_def flushQueue_with_def)
qed

section \<open>The claims about the delivery engine\<close>



subsection \<open>Timers\<close>

lemma timers_ok_cong:
  "timers s' = timers s \<Longrightarrow> next_handle s' = next_handle s \<Longrightarrow> LOG_BACKOFF_TIMER s' = LOG_BACKOFF_TIMER s \<Longrightarrow>
   timers_ok s' = timers_ok s"
  by (simp add: timers_ok_def timer_set_def)

lemma timers_ok_scheduleFlush: "timers_ok s \<Longrightarrow> timers_ok (scheduleFlush d s)"
  by (auto simp: timers_ok_def scheduleFlush_def timer_set_def split: option.splits)

lemma timers_ok_flushQueue_called: "timers_ok (flushQueue_called s) = timers_ok s"
  by (rule timers_ok_cong) (simp_all add: flushQueue_called_def)

lemma timers_ok_drain_ends: "timers_ok (drain_ends s) = timers_ok s"
  by (rule timers_ok_cong) (simp_all add: drain_ends_def)

lemma timers_ok_fires: "timers_ok s \<Longrightarrow> timers_ok (timer_fires h s)"
proof (cases "h \<in> set (map fst (timers s))")
  case False
  assume "timers_ok s"
  with False show ?thesis by (simp add: timer_fires_def)
next
  case True
  assume a: "timers_ok s"
  with True obtain d where "timers s = [(h, d)]"
    by (cases "timers s") (auto simp: timers_ok_def)
  then have "timers_ok (s\<lparr>timers := filter (\<lambda>(h', d). h' \<noteq> h) (timers s), LOG_BACKOFF_TIMER := None\<rparr>)"
    using a by (simp add: timers_ok_def timer_set_def)
  then show ?thesis using True
    by (simp add: timer_fires_def timers_ok_flushQueue_called)
qed

lemma timers_ok_read_done: "timers_ok s \<Longrightarrow> timers_ok (read_done B r s)"
proof -
  assume a: "timers_ok s"
  have "timers_ok (read_done B r s) = timers_ok s"
    by (rule timers_ok_cong) (simp_all add: read_done_def drain_ends_def split: sum.splits)
  with a show ?thesis by simp
qed

lemma timers_ok_send_done: "timers_ok s \<Longrightarrow> timers_ok (send_done net s)"
proof (cases "drain_pc s")
  case (Sending b)
  assume a: "timers_ok s"
  have "timers_ok (s\<lparr>drain_pc := c\<rparr>)" for c
    using a by (simp add: timers_ok_def timer_set_def)
  moreover have "timers_ok (scheduleFlush d (s\<lparr>LOG_RETRY_ATTEMPTS := n\<rparr>))" for d n
    by (rule timers_ok_scheduleFlush) (use a in \<open>simp add: timers_ok_def timer_set_def\<close>)
  ultimately show ?thesis using Sending
    by (simp add: send_done_def Let_def timers_ok_drain_ends)
qed (simp_all add: send_done_def)

lemma timers_ok_delete_done: "timers_ok s \<Longrightarrow> timers_ok (delete_done r s)"
proof -
  assume a: "timers_ok s"
  have "timers_ok (delete_done r s) = timers_ok s"
    by (rule timers_ok_cong)
       (auto simp add: delete_done_def drain_ends_def idbDeleteIds_def delete_entries_def
             split: sum.splits drain_pc.splits tx_outcome.splits if_splits)
  with a show ?thesis by simp
qed

lemma timers_ok_logEnqueue: "timers_ok s \<Longrightarrow> timers_ok (snd (logEnqueue w rows s))"
proof -
  assume a: "timers_ok s"
  define s1 where "s1 = s\<lparr>LOG_BUFFER := LOG_BUFFER s @ (case rows of Arr xs \<Rightarrow> xs | v \<Rightarrow> [v])\<rparr>"
  have b: "timers_ok s1" using a by (simp add: s1_def timers_ok_def timer_set_def)
  show ?thesis
  proof (cases "idbPutAll w (case rows of Arr xs \<Rightarrow> xs | v \<Rightarrow> [v]) s1")
    case (Inl err)
    then show ?thesis using b by (simp add: logEnqueue_def Let_def s1_def)
  next
    case (Inr s2)
    have "timers_ok s2 = timers_ok s1"
      using Inr by (intro timers_ok_cong) (auto simp: idbPutAll_def split: if_splits tx_outcome.splits)
    then have "timers_ok (scheduleFlush 250 s2)" using b by (simp add: timers_ok_scheduleFlush)
    then show ?thesis using Inr by (simp add: logEnqueue_def Let_def s1_def)
  qed
qed

lemma timers_ok_logTrialRow: "timers_ok s \<Longrightarrow> timers_ok (logTrialRow e w fs s)"
proof -
  assume a: "timers_ok s"
  have b: "timers_ok (s\<lparr>LOG_SEQ := x, UA_EMITTED := y\<rparr>)" for x y
    using a by (simp add: timers_ok_def timer_set_def)
  show ?thesis
    using a by (auto simp: logTrialRow_def Let_def b timers_ok_logEnqueue split: prod.splits sum.splits)
qed

lemma timers_ok_page_hidden: "timers_ok s \<Longrightarrow> timers_ok (page_hidden e s)"
proof (cases "flushSyncBeacon e s")
  case None
  assume "timers_ok s"
  then show ?thesis using None by (simp add: page_hidden_def timers_ok_def timer_set_def)
next
  case (Some s')
  assume "timers_ok s"
  then show ?thesis using Some flushSyncBeacon_cases[OF Some]
    by (auto simp add: page_hidden_def timers_ok_def timer_set_def)
qed

lemma timers_ok_step_with: "timers_ok s \<Longrightarrow> timers_ok (step_with B e net s ev)"
proof (cases ev)
  case DiscardClicked
  assume "timers_ok s"
  then show ?thesis unfolding DiscardClicked
    by (simp add: step_with_def discard_clicked_def clearLocalQueue_def timers_ok_def timer_set_def)
next
  case (StoreCleared r)
  assume "timers_ok s"
  then show ?thesis unfolding StoreCleared
    by (simp add: step_with_def clearLocalQueue_done_def timers_ok_def timer_set_def split: tx_outcome.splits)
qed (simp_all add: step_with_def timers_ok_logTrialRow timers_ok_logEnqueue timers_ok_scheduleFlush
       timers_ok_fires timers_ok_read_done timers_ok_send_done timers_ok_delete_done timers_ok_page_hidden)

lemma timers_ok_run: "timers_ok s \<Longrightarrow> timers_ok (run e net s evs)"
  unfolding run_def step_def by (induction evs arbitrary: s) (simp_all add: timers_ok_step_with)

lemma timers_ok_initial: "timers_ok (initial idb b)"
  by (simp add: timers_ok_def initial_def timer_set_def)

text \<open>
  \<^bold>\<open>C7\<close> (idempotent scheduling). In every state the page can reach, at most one
  flush timeout is pending; \<^verbatim>\<open>scheduleFlush\<close> with a timeout pending changes nothing,
  whatever the delay; and with none pending (outside discard mode, where
  \<^verbatim>\<open>scheduleFlush\<close> schedules nothing at all) two calls in a row leave exactly one
  timeout, with the delay of the first call.
\<close>

theorem at_most_one_flush_timer:
  "length (timers (run e net (initial idb b) evs)) \<le> 1
   \<and> (timers (run e net (initial idb b) evs) \<noteq> [] \<longrightarrow>
        scheduleFlush d (run e net (initial idb b) evs) = run e net (initial idb b) evs)
   \<and> (timers (run e net (initial idb b) evs) = [] \<and> \<not> DISCARD_DATA (run e net (initial idb b) evs) \<longrightarrow>
        timers (scheduleFlush d2 (scheduleFlush d1 (run e net (initial idb b) evs)))
          = [(next_handle (run e net (initial idb b) evs), d1)])"
proof -
  let ?s = "run e net (initial idb b) evs"
  have ok: "timers_ok ?s" by (rule timers_ok_run) (rule timers_ok_initial)
  then have 1: "length (timers ?s) \<le> 1" by (simp add: timers_ok_def)
  have 2: "scheduleFlush d ?s = ?s" if "timers ?s \<noteq> []"
    using ok that by (simp add: timers_ok_def scheduleFlush_def)
  have 3: "timers (scheduleFlush d2 (scheduleFlush d1 ?s)) = [(next_handle ?s, d1)]"
    if "timers ?s = [] \<and> \<not> DISCARD_DATA ?s"
    using ok that by (simp add: timers_ok_def scheduleFlush_def timer_set_def)
  from 1 2 3 show ?thesis by blast
qed

theorem at_most_one_flush_timer_witness:
  "timers (scheduleFlush 100 (scheduleFlush 100 (run example_env (always NetworkError) (initial True True) [])))
     = [(1, 100)]"
  using at_most_one_flush_timer[of example_env "always NetworkError" True True "[]" 0 100 100]
  by (simp add: run_def initial_def)

subsection \<open>Send, then delete\<close>

lemma step_live: "\<not> hung s \<Longrightarrow> step e net s ev = handle LOG_BATCH_SIZE e net s ev"
  by (simp add: step_def step_with_def)




lemmas machine_simps = run_def step_def step_with_def logEnqueue_def idbPutAll_def scheduleFlush_def
  timer_set_def timer_fires_def flushQueue_called_def read_done_def idbReadBatch_def read_head_def
  send_done_def delete_done_def idbDeleteIds_def delete_entries_def drain_ends_def
  discard_clicked_def clearLocalQueue_def clearLocalQueue_done_def initial_def
  always_def okLike_def backoffMs_def LOG_BATCH_SIZE_def queue_rows_def Let_def




subsection \<open>Backoff\<close>

lemma round_fail_facts:
  assumes "timers t = [(h, d)]" "drain_pc t = Idle" "\<not> LOG_FLUSHING t" "\<not> DISCARD_DATA t"
    "\<not> hung t" "queue_rows t \<noteq> []" "\<not> okLike (net (length (posted t)))"
  shows "timers (retry_round e net t) = [(next_handle t, backoffMs (LOG_RETRY_ATTEMPTS t + 1))]"
    and "LOG_RETRY_ATTEMPTS (retry_round e net t) = LOG_RETRY_ATTEMPTS t + 1"
    and "drain_pc (retry_round e net t) = Idle"
    and "\<not> LOG_FLUSHING (retry_round e net t)" and "\<not> DISCARD_DATA (retry_round e net t)"
    and "\<not> hung (retry_round e net t)"
    and "queue_rows (retry_round e net t) = queue_rows t"
    and "length (posted (retry_round e net t)) = length (posted t) + 1"
proof -
  let ?t1 = "t\<lparr>timers := [], LOG_BACKOFF_TIMER := None, LOG_FLUSHING := True, drain_pc := Reading\<rparr>"
  let ?t2 = "?t1\<lparr>posted := posted t @ [take LOG_BATCH_SIZE (queue_rows t)],
                 drain_pc := Sending (read_head LOG_BATCH_SIZE ?t1)\<rparr>"
  let ?t3 = "drain_ends (scheduleFlush (backoffMs (LOG_RETRY_ATTEMPTS t + 1))
               (?t2\<lparr>LOG_RETRY_ATTEMPTS := LOG_RETRY_ATTEMPTS t + 1\<rparr>))"
  have B: "LOG_BATCH_SIZE \<noteq> 0" by (simp add: LOG_BATCH_SIZE_def)
  have 1: "step e net t (TimeoutFired h) = ?t1"
    using assms(1,3,4,5) by (simp add: step_live timer_fires_def flushQueue_called_def)
  have "read_done LOG_BATCH_SIZE Completes ?t1
          = ?t1\<lparr>posted := posted ?t1 @ [take LOG_BATCH_SIZE (queue_rows ?t1)],
                drain_pc := Sending (read_head LOG_BATCH_SIZE ?t1)\<rparr>"
    using assms(4,6) B by (intro read_done_sends) simp_all
  then have 2: "step e net ?t1 (ReadDone Completes) = ?t2"
    using assms(5) by (simp add: step_live)
  have "send_done net ?t2 = ?t3"
    using assms(7) send_done_failed[of ?t2 "read_head LOG_BATCH_SIZE ?t1" net] by simp
  then have 3: "step e net ?t2 SendDone = ?t3"
    using assms(5) by (simp add: step_live)
  have r: "retry_round e net t = ?t3"
    by (simp only: retry_round_def assms(1) list.case prod.case run_def foldl_Cons foldl_Nil 1 2 3)
  show "timers (retry_round e net t) = [(next_handle t, backoffMs (LOG_RETRY_ATTEMPTS t + 1))]"
    and "LOG_RETRY_ATTEMPTS (retry_round e net t) = LOG_RETRY_ATTEMPTS t + 1"
    and "drain_pc (retry_round e net t) = Idle"
    and "\<not> LOG_FLUSHING (retry_round e net t)" and "\<not> DISCARD_DATA (retry_round e net t)"
    and "\<not> hung (retry_round e net t)"
    and "queue_rows (retry_round e net t) = queue_rows t"
    and "length (posted (retry_round e net t)) = length (posted t) + 1"
    unfolding r using assms(4,5)
    by (simp_all add: drain_ends_def scheduleFlush_def timer_set_def)
qed

lemma round_fail_rounds:
  assumes "timers s = [(h, d)]" "drain_pc s = Idle" "\<not> LOG_FLUSHING s" "\<not> DISCARD_DATA s"
    "\<not> hung s" "queue_rows s \<noteq> []" "\<forall>k\<ge>length (posted s). \<not> okLike (net k)"
  shows "\<exists>h'. timers ((retry_round e net ^^ Suc n) s) = [(h', backoffMs (LOG_RETRY_ATTEMPTS s + Suc n))]
     \<and> LOG_RETRY_ATTEMPTS ((retry_round e net ^^ Suc n) s) = LOG_RETRY_ATTEMPTS s + Suc n
     \<and> drain_pc ((retry_round e net ^^ Suc n) s) = Idle
     \<and> \<not> LOG_FLUSHING ((retry_round e net ^^ Suc n) s) \<and> \<not> DISCARD_DATA ((retry_round e net ^^ Suc n) s)
     \<and> \<not> hung ((retry_round e net ^^ Suc n) s)
     \<and> queue_rows ((retry_round e net ^^ Suc n) s) = queue_rows s
     \<and> length (posted ((retry_round e net ^^ Suc n) s)) = length (posted s) + Suc n"
proof (induction n)
  case 0
  have "\<not> okLike (net (length (posted s)))" using assms(7) by simp
  from round_fail_facts[where net = net and e = e, OF assms(1-6) this] show ?case by simp
next
  case (Suc n)
  let ?t = "(retry_round e net ^^ Suc n) s"
  from Suc obtain h' where
    t: "timers ?t = [(h', backoffMs (LOG_RETRY_ATTEMPTS s + Suc n))]"
      "LOG_RETRY_ATTEMPTS ?t = LOG_RETRY_ATTEMPTS s + Suc n"
      "drain_pc ?t = Idle"
      "\<not> LOG_FLUSHING ?t" "\<not> DISCARD_DATA ?t" "\<not> hung ?t" "queue_rows ?t = queue_rows s"
      "length (posted ?t) = length (posted s) + Suc n"
    by blast
  have nok: "\<not> okLike (net (length (posted ?t)))" using assms(7) t(8) by simp
  have ne: "queue_rows ?t \<noteq> []" using assms(6) t(7) by simp
  have step: "(retry_round e net ^^ Suc (Suc n)) s = retry_round e net ?t" by simp
  from round_fail_facts[where net = net and e = e, OF t(1) t(3) t(4) t(5) t(6) ne nok] t show ?case
    unfolding step by simp
qed

text \<open>
  \<^bold>\<open>C3\<close> (backoff), as the code has it. A flush timeout is pending, no drain is
  running, the queue is not empty, the retry counter is 0, and every request from now on
  fails. Then after \<open>n \<ge> 1\<close> rounds with nothing in between, that is after \<open>n\<close>
  consecutive failed sends, the counter is \<open>n\<close> and the one timeout pending has the delay
  \<open>min 30000 (500 * 2 ^ n)\<close> milliseconds: 1000, 2000 and 4000 for the first three
  failures, 30000 for the tenth. In any state, a failed send raises the counter and
  passes \<open>min 30000 (500 * 2 ^ counter)\<close> to \<^verbatim>\<open>scheduleFlush\<close>; that call does nothing when a
  timeout is pending already or in discard mode, and otherwise registers a timeout with
  that delay. An acknowledged send leaves the counter as it is; the counter is 0 once the
  delete that follows has ended without an exception, and when a read has found the queue
  empty; a delete that throws (fallback only) leaves the loop through \<^verbatim>\<open>finally\<close> with
  the counter unchanged.
\<close>

theorem backoff_schedule:
  assumes "timers s = [(h, d)]" "drain_pc s = Idle" "\<not> LOG_FLUSHING s" "\<not> DISCARD_DATA s"
    and "\<not> hung s" "queue_rows s \<noteq> []"
    and "LOG_RETRY_ATTEMPTS s = 0"
    and "\<forall>k\<ge>length (posted s). \<not> okLike (net k)"
    and "1 \<le> n"
  shows "LOG_RETRY_ATTEMPTS ((retry_round e net ^^ n) s) = n
     \<and> map snd (timers ((retry_round e net ^^ n) s)) = [min 30000 (500 * 2 ^ n)]
     \<and> min 30000 (500 * 2 ^ 1) = (1000::nat) \<and> min 30000 (500 * 2 ^ 2) = (2000::nat)
     \<and> min 30000 (500 * 2 ^ 3) = (4000::nat) \<and> min 30000 (500 * 2 ^ 10) = (30000::nat)
     \<and> (\<forall>t b net'. drain_pc t = Sending b \<and> \<not> hung t \<and> \<not> okLike (net' (length (posted t) - 1)) \<longrightarrow>
           step e net' t SendDone
             = drain_ends (scheduleFlush (min 30000 (500 * 2 ^ (LOG_RETRY_ATTEMPTS t + 1)))
                             (t\<lparr>LOG_RETRY_ATTEMPTS := LOG_RETRY_ATTEMPTS t + 1\<rparr>)))
     \<and> (\<forall>t delayMs. timer_set t \<or> DISCARD_DATA t \<longrightarrow> scheduleFlush delayMs t = t)
     \<and> (\<forall>t delayMs. \<not> timer_set t \<and> \<not> DISCARD_DATA t \<longrightarrow>
           timers (scheduleFlush delayMs t) = timers t @ [(next_handle t, delayMs)])
     \<and> (\<forall>t b net'. drain_pc t = Sending b \<and> okLike (net' (length (posted t) - 1)) \<longrightarrow>
           LOG_RETRY_ATTEMPTS (send_done net' t) = LOG_RETRY_ATTEMPTS t)
     \<and> (\<forall>t b r t'. drain_pc t = Deleting b \<and> idbDeleteIds r b t = Inr t' \<longrightarrow>
           LOG_RETRY_ATTEMPTS (delete_done r t) = 0)
     \<and> (\<forall>t b r err. drain_pc t = Deleting b \<and> idbDeleteIds r b t = Inl err \<longrightarrow>
           delete_done r t = drain_ends t)
     \<and> (\<forall>t r B. drain_pc t = Reading \<and> idbReadBatch r B t = Inr [] \<longrightarrow>
           LOG_RETRY_ATTEMPTS (read_done B r t) = 0)"
proof -
  from assms(9) obtain m where n: "n = Suc m" by (cases n) auto
  from round_fail_rounds[where net = net and e = e, OF assms(1-6) assms(8), of m] assms(7)
  have a: "LOG_RETRY_ATTEMPTS ((retry_round e net ^^ n) s) = n"
    and b: "map snd (timers ((retry_round e net ^^ n) s)) = [min 30000 (500 * 2 ^ n)]"
    unfolding n by (auto simp: backoffMs_def)
  have c: "\<forall>t b net'. drain_pc t = Sending b \<and> \<not> hung t \<and> \<not> okLike (net' (length (posted t) - 1)) \<longrightarrow>
           step e net' t SendDone
             = drain_ends (scheduleFlush (min 30000 (500 * 2 ^ (LOG_RETRY_ATTEMPTS t + 1)))
                             (t\<lparr>LOG_RETRY_ATTEMPTS := LOG_RETRY_ATTEMPTS t + 1\<rparr>))"
    by (simp add: step_live send_done_failed backoffMs_def)
  have d: "\<forall>t delayMs. timer_set t \<or> DISCARD_DATA t \<longrightarrow> scheduleFlush delayMs t = t"
    by (simp add: scheduleFlush_def)
  have d': "\<forall>t delayMs. \<not> timer_set t \<and> \<not> DISCARD_DATA t \<longrightarrow>
           timers (scheduleFlush delayMs t) = timers t @ [(next_handle t, delayMs)]"
    by (simp add: scheduleFlush_def)
  have f: "\<forall>t b net'. drain_pc t = Sending b \<and> okLike (net' (length (posted t) - 1)) \<longrightarrow>
           LOG_RETRY_ATTEMPTS (send_done net' t) = LOG_RETRY_ATTEMPTS t"
    by (simp add: send_done_ok)
  have g: "\<forall>t b r t'. drain_pc t = Deleting b \<and> idbDeleteIds r b t = Inr t' \<longrightarrow>
           LOG_RETRY_ATTEMPTS (delete_done r t) = 0"
    by (simp add: delete_done_def)
  have g': "\<forall>t b r err. drain_pc t = Deleting b \<and> idbDeleteIds r b t = Inl err \<longrightarrow>
           delete_done r t = drain_ends t"
    by (simp add: delete_done_def)
  have i: "\<forall>t r B. drain_pc t = Reading \<and> idbReadBatch r B t = Inr [] \<longrightarrow>
           LOG_RETRY_ATTEMPTS (read_done B r t) = 0"
    by (simp add: read_done_def drain_ends_def)
  have v: "min 30000 (500 * 2 ^ 1) = (1000::nat) \<and> min 30000 (500 * 2 ^ 2) = (2000::nat)
     \<and> min 30000 (500 * 2 ^ 3) = (4000::nat) \<and> min 30000 (500 * 2 ^ 10) = (30000::nat)"
    by simp
  from a b v c d d' f g g' i show ?thesis by (intro conjI) blast+
qed

theorem backoff_schedule_witness:
  "LOG_RETRY_ATTEMPTS ((retry_round example_env (always NetworkError) ^^ 3)
       (snd (logEnqueue Completes (Arr [Str ''A'']) (initial False True)))) = 3
   \<and> map snd (timers ((retry_round example_env (always NetworkError) ^^ 3)
       (snd (logEnqueue Completes (Arr [Str ''A'']) (initial False True))))) = [4000]"
proof -
  let ?s = "snd (logEnqueue Completes (Arr [Str ''A'']) (initial False True))"
  have "timers ?s = [(1, 250)]" "drain_pc ?s = Idle" "\<not> LOG_FLUSHING ?s" "\<not> DISCARD_DATA ?s"
    "\<not> hung ?s" "queue_rows ?s \<noteq> []"
    "LOG_RETRY_ATTEMPTS ?s = 0" "\<forall>k\<ge>length (posted ?s). \<not> okLike (always NetworkError k)"
    by (simp_all add: logEnqueue_def idbPutAll_def initial_def scheduleFlush_def timer_set_def
          queue_rows_def always_def okLike_def Let_def)
  from backoff_schedule[where net = "always NetworkError" and e = example_env, OF this, of 3]
  show ?thesis by simp
qed

text \<open>
  The claim \<^bold>\<open>C3\<close> as stated fails on what is scheduled and on the reset. When rows are
  enqueued while the request is in flight, \<^verbatim>\<open>logEnqueue\<close> registers its timeout of 250 ms;
  the request fails, the counter is 1, and \<^verbatim>\<open>scheduleFlush(1000)\<close> does nothing: the
  timeout pending is the one of 250 ms. And in the fallback, after one failure and then a
  success, a delete that throws leaves the counter at 1.
\<close>

theorem backoff_timer_counterexample:
  "timers (run example_env (always NetworkError) (initial True True)
      [RowsEnqueued (Arr [Str ''A'']) Completes, TimeoutFired 1, ReadDone Completes,
       RowsEnqueued (Arr [Str ''B'']) Completes, SendDone]) = [(2, 250)]
   \<and> LOG_RETRY_ATTEMPTS (run example_env (always NetworkError) (initial True True)
      [RowsEnqueued (Arr [Str ''A'']) Completes, TimeoutFired 1, ReadDone Completes,
       RowsEnqueued (Arr [Str ''B'']) Completes, SendDone]) = 1
   \<and> LOG_RETRY_ATTEMPTS (run example_env fails_first (initial False True)
      [RowsEnqueued (Arr [Str ''A'']) Completes, TimeoutFired 1, ReadDone Completes, SendDone,
       TimeoutFired 2, ReadDone Completes, SendDone]) = 1
   \<and> posted (run example_env fails_first (initial False True)
      [RowsEnqueued (Arr [Str ''A'']) Completes, TimeoutFired 1, ReadDone Completes, SendDone,
       TimeoutFired 2, ReadDone Completes, SendDone]) = [[Str ''A''], [Str ''A'']]
   \<and> okLike (fails_first 1)
   \<and> LOG_RETRY_ATTEMPTS (run example_env fails_first (initial False True)
      [RowsEnqueued (Arr [Str ''A'']) Completes, TimeoutFired 1, ReadDone Completes, SendDone,
       TimeoutFired 2, ReadDone Completes, SendDone, DeleteDone (Fails QuotaExceededError)]) = 1
   \<and> drain_pc (run example_env fails_first (initial False True)
      [RowsEnqueued (Arr [Str ''A'']) Completes, TimeoutFired 1, ReadDone Completes, SendDone,
       TimeoutFired 2, ReadDone Completes, SendDone, DeleteDone (Fails QuotaExceededError)]) = Idle"
  by (simp add: machine_simps fails_first_def)

subsection \<open>Discard mode and storage errors\<close>

lemma logEnqueue_frame:
  "posted (snd (logEnqueue w rows s)) = posted s"
  "DISCARD_DATA (snd (logEnqueue w rows s)) = DISCARD_DATA s"
  "beacons (snd (logEnqueue w rows s)) = beacons s"
  "hung (snd (logEnqueue w rows s)) = hung s"
  "LOG_BUFFER (snd (logEnqueue w rows s)) = LOG_BUFFER s @ (case rows of Arr xs \<Rightarrow> xs | v \<Rightarrow> [v])"
  "has_sendBeacon (snd (logEnqueue w rows s)) = has_sendBeacon s"
  by (auto simp: logEnqueue_def idbPutAll_def Let_def split: tx_outcome.splits)

lemma page_hidden_frame:
  "posted (page_hidden e s) = posted s"
  "DISCARD_DATA (page_hidden e s) = DISCARD_DATA s"
  "LOG_BUFFER (page_hidden e s) = LOG_BUFFER s"
proof -
  have "posted (page_hidden e s) = posted s \<and> DISCARD_DATA (page_hidden e s) = DISCARD_DATA s
        \<and> LOG_BUFFER (page_hidden e s) = LOG_BUFFER s"
  proof (cases "flushSyncBeacon e s")
    case None
    then show ?thesis by (simp add: page_hidden_def)
  next
    case (Some s')
    then show ?thesis using flushSyncBeacon_cases[OF Some] by (auto simp: page_hidden_def)
  qed
  then show "posted (page_hidden e s) = posted s" "DISCARD_DATA (page_hidden e s) = DISCARD_DATA s"
    "LOG_BUFFER (page_hidden e s) = LOG_BUFFER s"
    by simp_all
qed

lemma discard_step_posted:
  assumes "DISCARD_DATA s"
  shows "DISCARD_DATA (step e net s ev) \<and> posted (step e net s ev) = posted s"
proof (cases "hung s")
  case True
  then show ?thesis using assms by (simp add: step_def step_with_def)
next
  case False
  note live = step_live[OF False]
  show ?thesis
  proof (cases ev)
    case (TrialLogged fs w)
    then show ?thesis using assms by (simp add: live logTrialRow_def)
  next
    case (RowsEnqueued rows w)
    then show ?thesis using assms by (simp add: live logEnqueue_frame)
  next
    case (FlushRequested d)
    then show ?thesis using assms by (simp add: live scheduleFlush_def)
  next
    case (TimeoutFired h)
    then show ?thesis using assms by (simp add: live timer_fires_def flushQueue_called_def)
  next
    case (ReadDone r)
    then show ?thesis using assms by (simp add: live read_done_def drain_ends_def split: sum.splits)
  next
    case SendDone
    then show ?thesis using assms
      by (simp add: live send_done_def drain_ends_def Let_def split: drain_pc.splits)
  next
    case (DeleteDone r)
    then show ?thesis using assms
      by (auto simp add: live delete_done_def drain_ends_def idbDeleteIds_def
            split: drain_pc.splits sum.splits if_splits tx_outcome.splits)
  next
    case DiscardClicked
    then show ?thesis by (simp add: live discard_clicked_def clearLocalQueue_def)
  next
    case (StoreCleared r)
    then show ?thesis using assms by (simp add: live clearLocalQueue_done_def split: tx_outcome.splits)
  next
    case PageHidden
    then show ?thesis using assms by (simp add: live page_hidden_frame)
  qed
qed

lemma discard_run_posted:
  "DISCARD_DATA s \<Longrightarrow> DISCARD_DATA (run e net s evs) \<and> posted (run e net s evs) = posted s"
  unfolding run_def
proof (induction evs arbitrary: s)
  case Nil
  then show ?case by simp
next
  case (Cons ev evs)
  from discard_step_posted[OF Cons.prems, of e net ev]
  have a: "DISCARD_DATA (step e net s ev)" and b: "posted (step e net s ev) = posted s" by simp_all
  from Cons.IH[OF a] b show ?case by simp
qed

text \<open>With the mirror empty, and no direct call of \<^verbatim>\<open>logEnqueue\<close>, the mirror stays empty
  and \<^verbatim>\<open>sendBeacon\<close> is not called.\<close>

lemma flushSyncBeacon_empty: "LOG_BUFFER s = [] \<Longrightarrow> flushSyncBeacon e s = Some s"
  by (simp add: flushSyncBeacon_def)

lemma discard_step_beacons:
  assumes "DISCARD_DATA s" "LOG_BUFFER s = []" "\<forall>rows w. ev \<noteq> RowsEnqueued rows w"
  shows "LOG_BUFFER (step e net s ev) = [] \<and> beacons (step e net s ev) = beacons s"
proof (cases "hung s")
  case True
  then show ?thesis using assms by (simp add: step_def step_with_def)
next
  case False
  note live = step_live[OF False]
  show ?thesis
  proof (cases ev)
    case (TrialLogged fs w)
    then show ?thesis using assms by (simp add: live logTrialRow_def)
  next
    case (RowsEnqueued rows w)
    then show ?thesis using assms by (simp add: live)
  next
    case (FlushRequested d)
    then show ?thesis using assms by (simp add: live scheduleFlush_def)
  next
    case (TimeoutFired h)
    then show ?thesis using assms by (simp add: live timer_fires_def flushQueue_called_def)
  next
    case (ReadDone r)
    then show ?thesis using assms by (simp add: live read_done_def drain_ends_def split: sum.splits)
  next
    case SendDone
    then show ?thesis using assms
      by (simp add: live send_done_def drain_ends_def Let_def split: drain_pc.splits)
  next
    case (DeleteDone r)
    then show ?thesis using assms
      by (auto simp add: live delete_done_def drain_ends_def idbDeleteIds_def
            split: drain_pc.splits sum.splits if_splits tx_outcome.splits)
  next
    case DiscardClicked
    then show ?thesis by (simp add: live discard_clicked_def clearLocalQueue_def)
  next
    case (StoreCleared r)
    then show ?thesis using assms by (simp add: live clearLocalQueue_done_def split: tx_outcome.splits)
  next
    case PageHidden
    then show ?thesis using assms by (simp add: live page_hidden_def flushSyncBeacon_empty)
  qed
qed

lemma discard_run_beacons:
  assumes "DISCARD_DATA s" "LOG_BUFFER s = []" "\<forall>rows w. RowsEnqueued rows w \<notin> set evs"
  shows "LOG_BUFFER (run e net s evs) = [] \<and> beacons (run e net s evs) = beacons s"
  using assms unfolding run_def
proof (induction evs arbitrary: s)
  case Nil
  then show ?case by simp
next
  case (Cons ev evs)
  have ne: "\<forall>rows w. ev \<noteq> RowsEnqueued rows w" using Cons.prems(3) by auto
  from discard_step_beacons[OF Cons.prems(1,2) ne, of e net]
  have a: "LOG_BUFFER (step e net s ev) = []" and b: "beacons (step e net s ev) = beacons s" by simp_all
  have d: "DISCARD_DATA (step e net s ev)" using discard_step_posted[OF Cons.prems(1)] by simp
  have "\<forall>rows w. RowsEnqueued rows w \<notin> set evs" using Cons.prems(3) by auto
  from Cons.IH[OF d a this] b show ?case by simp
qed

text \<open>A mirror of at most 25 rows that fits the cap is sent whole.\<close>

lemma flushSyncBeacon_small:
  assumes "LOG_BUFFER s = rows" "rows \<noteq> []" "length rows \<le> LOG_BATCH_SIZE"
    "blob_size (num_to_string e) rows \<le> maxBytes"
  shows "flushSyncBeacon e s = Some (if has_sendBeacon s then s\<lparr>beacons := beacons s @ [rows]\<rparr> else s)"
proof -
  have "shrink (num_to_string e) rows 0 (length rows) None = Some (Some rows)"
    using assms(2,4) by (subst shrink.simps) (simp add: slice_def)
  then show ?thesis using assms(1,2,3) by (simp add: flushSyncBeacon_def)
qed

text \<open>
  \<^bold>\<open>C2\<close> (discard mode), as the code has it. Once \<^verbatim>\<open>window.__DISCARD_DATA__\<close> is set,
  \<^verbatim>\<open>logTrialRow\<close> changes nothing, \<^verbatim>\<open>scheduleFlush\<close> and \<^verbatim>\<open>flushQueue\<close> return at once,
  and whatever happens on the page afterwards no further batch is posted with \<^verbatim>\<open>fetch\<close>.
  \<^verbatim>\<open>logEnqueue\<close> itself does not test the flag (its callers do): it schedules no flush and
  posts nothing, but it appends its rows to the in-memory mirror and writes them to the
  store. As long as it is not called, the mirror stays empty and \<^verbatim>\<open>sendBeacon\<close> is not
  called either, whatever happens; after a direct call, the rows it left in the mirror are
  given to \<^verbatim>\<open>sendBeacon\<close> when the page is hidden (\<^verbatim>\<open>flushSyncBeacon\<close> does not test the
  flag).
\<close>

theorem discard_mode_halts_logging:
  assumes "DISCARD_DATA s"
  shows "logTrialRow e w fs s = s
     \<and> scheduleFlush delayMs s = s
     \<and> flushQueue_called s = s
     \<and> flushQueue net s = s
     \<and> timers (snd (logEnqueue w rows s)) = timers s
     \<and> posted (snd (logEnqueue w rows s)) = posted s
     \<and> LOG_BUFFER (snd (logEnqueue w rows s)) = LOG_BUFFER s @ (case rows of Arr xs \<Rightarrow> xs | v \<Rightarrow> [v])
     \<and> (store_ok s \<longrightarrow>
          queue_rows (snd (logEnqueue Completes (Arr xs) s))
            = queue_rows s @ (if idb_open s then xs else map json_image xs))
     \<and> posted (run e net s evs) = posted s
     \<and> (LOG_BUFFER s = [] \<and> (\<forall>rs w'. RowsEnqueued rs w' \<notin> set evs) \<longrightarrow>
          LOG_BUFFER (run e net s evs) = [] \<and> beacons (run e net s evs) = beacons s)
     \<and> (\<not> hung s \<and> has_sendBeacon s \<and> LOG_BUFFER s = [] \<and> xs \<noteq> [] \<and> length xs \<le> LOG_BATCH_SIZE
          \<and> blob_size (num_to_string e) xs \<le> maxBytes \<longrightarrow>
          beacons (run e net s [RowsEnqueued (Arr xs) w, PageHidden]) = beacons s @ [xs])"
proof -
  have 1: "logTrialRow e w fs s = s \<and> scheduleFlush delayMs s = s \<and> flushQueue_called s = s
      \<and> flushQueue net s = s"
    using assms
    by (simp add: logTrialRow_def scheduleFlush_def flushQueue_called_def flushQueue_def flushQueue_with_def)
  have 2: "timers (snd (logEnqueue w rows s)) = timers s"
    using assms
    by (auto simp: logEnqueue_def idbPutAll_def scheduleFlush_def Let_def split: tx_outcome.splits)
  have 3: "posted (snd (logEnqueue w rows s)) = posted s"
    "LOG_BUFFER (snd (logEnqueue w rows s)) = LOG_BUFFER s @ (case rows of Arr xs \<Rightarrow> xs | v \<Rightarrow> [v])"
    by (simp_all add: logEnqueue_frame)
  have 4: "store_ok s \<longrightarrow>
          queue_rows (snd (logEnqueue Completes (Arr xs) s))
            = queue_rows s @ (if idb_open s then xs else map json_image xs)"
    using queue_rows_logEnqueue[of s xs] by blast
  have 5: "posted (run e net s evs) = posted s"
    using discard_run_posted[OF assms, of e net evs] by simp
  have 6: "LOG_BUFFER s = [] \<and> (\<forall>rs w'. RowsEnqueued rs w' \<notin> set evs) \<longrightarrow>
          LOG_BUFFER (run e net s evs) = [] \<and> beacons (run e net s evs) = beacons s"
    using discard_run_beacons[OF assms, of evs e net] by blast
  have 7: "beacons (run e net s [RowsEnqueued (Arr xs) w, PageHidden]) = beacons s @ [xs]"
    if h: "\<not> hung s \<and> has_sendBeacon s \<and> LOG_BUFFER s = [] \<and> xs \<noteq> [] \<and> length xs \<le> LOG_BATCH_SIZE
          \<and> blob_size (num_to_string e) xs \<le> maxBytes"
  proof -
    let ?s1 = "snd (logEnqueue w (Arr xs) s)"
    have a: "step e net s (RowsEnqueued (Arr xs) w) = ?s1" using h by (simp add: step_live)
    have f: "\<not> hung ?s1" "LOG_BUFFER ?s1 = xs" "has_sendBeacon ?s1" "beacons ?s1 = beacons s"
      using h by (simp_all add: logEnqueue_frame)
    have "flushSyncBeacon e ?s1 = Some (?s1\<lparr>beacons := beacons ?s1 @ [xs]\<rparr>)"
      using flushSyncBeacon_small[OF f(2), of e] h f(3) by simp
    then have "step e net ?s1 PageHidden = ?s1\<lparr>beacons := beacons s @ [xs]\<rparr>"
      using f(1,4) by (simp add: step_live page_hidden_def)
    then show ?thesis by (simp add: run_def a)
  qed
  from 1 2 3 4 5 6 7 show ?thesis by blast
qed

text \<open>
  After the discard click: \<^verbatim>\<open>logTrialRow\<close> and \<^verbatim>\<open>scheduleFlush\<close> change nothing, nothing is
  posted, and a direct \<^verbatim>\<open>logEnqueue\<close> writes its row to the store.
\<close>

theorem discard_mode_halts_logging_witness:
  "logTrialRow example_env Completes [(''trial_type'', Str ''door'')] (discard_clicked (initial True True))
     = discard_clicked (initial True True)
   \<and> scheduleFlush 0 (discard_clicked (initial True True)) = discard_clicked (initial True True)
   \<and> posted (run example_env (always (Response 200 basic)) (discard_clicked (initial True True))
        [RowsEnqueued (Arr [Str ''row'']) Completes, FlushRequested 0, TimeoutFired 1]) = []
   \<and> queue_rows (snd (logEnqueue Completes (Arr [Str ''row'']) (discard_clicked (initial True True))))
        = [Str ''row'']"
proof -
  have d: "DISCARD_DATA (discard_clicked (initial True True))"
    by (simp add: discard_clicked_def clearLocalQueue_def)
  have p: "posted (discard_clicked (initial True True)) = []"
    "queue_rows (discard_clicked (initial True True)) = []"
    "idb_open (discard_clicked (initial True True))"
    "store_ok (discard_clicked (initial True True))"
    by (simp_all add: discard_clicked_def clearLocalQueue_def initial_def queue_rows_def store_ok_def)
  from discard_mode_halts_logging[OF d, of example_env Completes "[(''trial_type'', Str ''door'')]" 0
        "always (Response 200 basic)" Null "[Str ''row'']"
        "[RowsEnqueued (Arr [Str ''row'']) Completes, FlushRequested 0, TimeoutFired 1]"]
  show ?thesis unfolding p using p(3,4) by simp
qed

text \<open>
  The claim \<^bold>\<open>C2\<close> as stated fails for \<^verbatim>\<open>logEnqueue\<close>: in discard mode, with mirror and
  store empty, \<^verbatim>\<open>logEnqueue([row])\<close> leaves the row in the mirror and in the store, and
  when the page is hidden afterwards the row is given to \<^verbatim>\<open>sendBeacon\<close>.
\<close>

theorem discard_mode_enqueue_counterexample:
  "DISCARD_DATA (discard_clicked (initial False True))
   \<and> LOG_BUFFER (discard_clicked (initial False True)) = []
   \<and> log_queue_ls (discard_clicked (initial False True)) = []
   \<and> LOG_BUFFER (snd (logEnqueue Completes (Arr [Str ''row'']) (discard_clicked (initial False True)))) = [Str ''row'']
   \<and> log_queue_ls (snd (logEnqueue Completes (Arr [Str ''row'']) (discard_clicked (initial False True)))) = [Str ''row'']
   \<and> beacons (run example_env (always NetworkError) (discard_clicked (initial False True))
        [RowsEnqueued (Arr [Str ''row'']) Completes, PageHidden]) = [[Str ''row'']]"
proof -
  have "blob_size (num_to_string example_env) [Str ''row''] \<le> maxBytes"
    by (simp add: blob_size_def maxBytes_def join_def json_quote_def json_char_def
          encodeURIComponent_def encode_char_def unreserved_def hex_upper_def)
  then have "flushSyncBeacon example_env (snd (logEnqueue Completes (Arr [Str ''row'']) (discard_clicked (initial False True))))
      = Some ((snd (logEnqueue Completes (Arr [Str ''row'']) (discard_clicked (initial False True))))
               \<lparr>beacons := [[Str ''row'']]\<rparr>)"
    by (subst flushSyncBeacon_small[where rows = "[Str ''row'']"])
       (simp_all add: discard_clicked_def clearLocalQueue_def initial_def logEnqueue_def idbPutAll_def
        scheduleFlush_def Let_def LOG_BATCH_SIZE_def)
  then show ?thesis
    by (simp add: run_def step_def step_with_def page_hidden_def logEnqueue_frame)
       (simp add: discard_clicked_def clearLocalQueue_def initial_def logEnqueue_def idbPutAll_def
        scheduleFlush_def Let_def)
qed

text \<open>
  \<^bold>\<open>C9\<close> (storage write errors) fails in the fallback backend. When
  \<^verbatim>\<open>localStorage.setItem\<close> throws (quota exceeded), \<^verbatim>\<open>idbPutAll\<close> has no handler for it:
  the promise of \<^verbatim>\<open>logEnqueue\<close> is rejected and the flush is not scheduled; the row is in
  the mirror. With IndexedDB the same failure is swallowed by \<^verbatim>\<open>tx.onerror\<close>: the promise
  resolves and the flush is scheduled.
\<close>

theorem logEnqueue_fallback_write_error_rejects:
  "fst (logEnqueue (Fails QuotaExceededError) (Arr [Str ''row'']) (initial False True)) = Some QuotaExceededError
   \<and> timers (snd (logEnqueue (Fails QuotaExceededError) (Arr [Str ''row'']) (initial False True))) = []
   \<and> LOG_BUFFER (snd (logEnqueue (Fails QuotaExceededError) (Arr [Str ''row'']) (initial False True))) = [Str ''row'']
   \<and> fst (logEnqueue (Fails QuotaExceededError) (Arr [Str ''row'']) (initial True True)) = None
   \<and> timers (snd (logEnqueue (Fails QuotaExceededError) (Arr [Str ''row'']) (initial True True))) = [(1, 250)]
   \<and> LOG_BUFFER (snd (logEnqueue (Fails QuotaExceededError) (Arr [Str ''row'']) (initial True True))) = [Str ''row'']"
  by (simp add: initial_def logEnqueue_def idbPutAll_def scheduleFlush_def timer_set_def Let_def)

section \<open>The claims about the emergency flush\<close>

lemma enc_append [simp]: "encodeURIComponent (a @ b) = encodeURIComponent a @ encodeURIComponent b"
  by (simp add: encodeURIComponent_def)

lemma enc_Nil [simp]: "encodeURIComponent [] = []"
  by (simp add: encodeURIComponent_def)

lemma enc_Cons: "encodeURIComponent (c # cs) = encode_char c @ encodeURIComponent cs"
  by (simp add: encodeURIComponent_def)

lemma concat_replicate_single: "concat (replicate n [x]) = replicate n x"
  by (induction n) simp_all

lemma enc_replicate: "unreserved c \<Longrightarrow> encodeURIComponent (replicate n c) = replicate n c"
  by (simp add: encodeURIComponent_def encode_char_def map_replicate concat_replicate_single)

lemma json_quote_replicate:
  "json_char c = [c] \<Longrightarrow> json_quote (replicate n c) = CHR 0x22 # replicate n c @ [CHR 0x22]"
  by (simp add: json_quote_def map_replicate concat_replicate_single)

lemma a_plain: "unreserved CHR ''a''" "json_char CHR ''a'' = ''a''"
  by (simp_all add: unreserved_def json_char_def)


lemma blob_size_one: "blob_size fmt [big_row n] = n + 96"
  by (simp add: blob_size_def big_row_def join_def json_quote_replicate a_plain enc_replicate
        json_quote_def json_char_def enc_Cons encode_char_def unreserved_def hex_upper_def)

lemma blob_size_two: "blob_size fmt [big_row n, big_row m] = n + m + 162"
  by (simp add: blob_size_def big_row_def join_def json_quote_replicate a_plain enc_replicate
        json_quote_def json_char_def enc_Cons encode_char_def unreserved_def hex_upper_def)


lemma shrink_returns_only_if_fits:
  assumes "shrink fmt buf sliceStart en blob = Some r"
  shows "\<not> (sliceStart < en \<and> (\<forall>k. sliceStart < k \<and> k \<le> en \<longrightarrow> maxBytes < blob_size fmt (slice buf sliceStart k)))"
proof -
  let ?P = "\<lambda>(fmt :: rat \<Rightarrow> string) (buf :: jsval list) (sliceStart :: nat) (en :: nat)
              (blob :: jsval list option) (r :: jsval list option).
      \<not> (sliceStart < en \<and> (\<forall>k. sliceStart < k \<and> k \<le> en \<longrightarrow> maxBytes < blob_size fmt (slice buf sliceStart k)))"
  have "?P fmt buf sliceStart en blob r"
  proof (rule shrink.raw_induct[where P = ?P, OF _ assms], goal_cases)
    case (1 shrink' fmt buf sliceStart en blob r)
    show ?case
    proof
      assume c: "sliceStart < en \<and> (\<forall>k. sliceStart < k \<and> k \<le> en \<longrightarrow> maxBytes < blob_size fmt (slice buf sliceStart k))"
      let ?en' = "max (sliceStart + 1) ((sliceStart + en) div 2)"
      from c have big: "maxBytes < blob_size fmt (slice buf sliceStart en)" by simp
      with c 1(2) have "shrink' fmt buf sliceStart ?en' (Some (slice buf sliceStart en)) = Some r"
        by simp
      from 1(1)[OF this] c show False by auto
    qed
  qed
  then show ?thesis .
qed

lemma shrink_diverges:
  assumes "sliceStart < en"
    and "\<And>k. sliceStart < k \<Longrightarrow> k \<le> en \<Longrightarrow> maxBytes < blob_size fmt (slice buf sliceStart k)"
  shows "shrink fmt buf sliceStart en blob = None"
proof (cases "shrink fmt buf sliceStart en blob")
  case None
  then show ?thesis .
next
  case (Some r)
  from shrink_returns_only_if_fits[OF Some] assms show ?thesis by blast
qed

lemma shrink_result:
  assumes "shrink fmt buf sliceStart en blob = Some r"
  shows "if sliceStart < en
    then \<exists>k. sliceStart < k \<and> k \<le> en \<and> r = Some (slice buf sliceStart k)
             \<and> blob_size fmt (slice buf sliceStart k) \<le> maxBytes
    else r = blob"
proof -
  let ?P = "\<lambda>(fmt :: rat \<Rightarrow> string) (buf :: jsval list) (sliceStart :: nat) (en :: nat)
              (blob :: jsval list option) (r :: jsval list option).
      if sliceStart < en
      then \<exists>k. sliceStart < k \<and> k \<le> en \<and> r = Some (slice buf sliceStart k)
             \<and> blob_size fmt (slice buf sliceStart k) \<le> maxBytes
      else r = blob"
  have "?P fmt buf sliceStart en blob r"
  proof (rule shrink.raw_induct[where P = ?P, OF _ assms], goal_cases)
    case (1 shrink' fmt buf sliceStart en blob r)
    show ?case
    proof (cases "sliceStart < en")
      case False
      with 1(2) show ?thesis by simp
    next
      case True
      show ?thesis
      proof (cases "blob_size fmt (slice buf sliceStart en) \<le> maxBytes")
        case fits: True
        with True 1(2) have "r = Some (slice buf sliceStart en)" by simp
        with True fits show ?thesis by auto
      next
        case False
        let ?en' = "max (sliceStart + 1) ((sliceStart + en) div 2)"
        from True False 1(2)
        have "shrink' fmt buf sliceStart ?en' (Some (slice buf sliceStart en)) = Some r" by simp
        from 1(1)[OF this] obtain k where
          "sliceStart < k" "k \<le> ?en'" "r = Some (slice buf sliceStart k)"
          "blob_size fmt (slice buf sliceStart k) \<le> maxBytes"
          by (auto split: if_splits)
        moreover from True have "?en' \<le> en" by simp
        ultimately show ?thesis using True by auto
      qed
    qed
  qed
  then show ?thesis .
qed

lemma shrink_returns_when_oldest_row_fits:
  assumes "blob_size fmt (slice buf sliceStart (sliceStart + 1)) \<le> maxBytes" "sliceStart < en"
  shows "\<exists>rows. shrink fmt buf sliceStart en blob = Some (Some rows)"
  using assms(2)
proof (induction "en - sliceStart" arbitrary: en blob rule: less_induct)
  case less
  show ?case
  proof (cases "blob_size fmt (slice buf sliceStart en) \<le> maxBytes")
    case True
    with less.prems show ?thesis by (subst shrink.simps) simp
  next
    case False
    let ?en' = "max (sliceStart + 1) ((sliceStart + en) div 2)"
    from False assms(1) have "en \<noteq> sliceStart + 1" by auto
    with less.prems have "?en' - sliceStart < en - sliceStart" "sliceStart < ?en'" by auto
    from less.hyps[OF this] obtain rows where
      "shrink fmt buf sliceStart ?en' (Some (slice buf sliceStart en)) = Some (Some rows)" by blast
    with False less.prems show ?thesis by (subst shrink.simps) simp
  qed
qed

lemma flushSyncBeacon_result:
  assumes "flushSyncBeacon e s = Some s'" "LOG_BUFFER s \<noteq> []" "has_sendBeacon s"
  shows "\<exists>k. length (LOG_BUFFER s) - LOG_BATCH_SIZE < k \<and> k \<le> length (LOG_BUFFER s)
     \<and> s' = s\<lparr>beacons := beacons s @ [slice (LOG_BUFFER s) (length (LOG_BUFFER s) - LOG_BATCH_SIZE) k]\<rparr>
     \<and> blob_size (num_to_string e) (slice (LOG_BUFFER s) (length (LOG_BUFFER s) - LOG_BATCH_SIZE) k) \<le> maxBytes"
proof -
  let ?buf = "LOG_BUFFER s"
  let ?st = "length ?buf - LOG_BATCH_SIZE"
  from assms obtain blob where b: "shrink (num_to_string e) ?buf ?st (length ?buf) None = Some blob"
    by (auto simp: flushSyncBeacon_def Let_def split: option.splits)
  have lt: "?st < length ?buf" using assms(2) by (simp add: LOG_BATCH_SIZE_def)
  with shrink_result[OF b] obtain k where
    k: "?st < k" "k \<le> length ?buf" "blob = Some (slice ?buf ?st k)"
      "blob_size (num_to_string e) (slice ?buf ?st k) \<le> maxBytes"
    by auto
  with assms b show ?thesis
    by (intro exI[of _ k]) (auto simp: flushSyncBeacon_def Let_def)
qed

text \<open>
  \<^bold>\<open>C10\<close> (termination of the emergency flush) fails. With one row in the mirror whose
  form-encoded payload is larger than the cap, the loop of \<^verbatim>\<open>flushSyncBeacon\<close> is left with
  \<^verbatim>\<open>end = sliceStart + 1\<close>, and \<^verbatim>\<open>Math.max(sliceStart + 1, \<dots>)\<close> gives the same \<^verbatim>\<open>end\<close>
  again: the function does not return, whatever the backend and the browser.
\<close>

theorem flushSyncBeacon_does_not_return:
  "flushSyncBeacon e (snd (logEnqueue w (Arr [big_row 60000]) (initial idb beacon))) = None"
proof -
  let ?s = "snd (logEnqueue w (Arr [big_row 60000]) (initial idb beacon))"
  have b: "LOG_BUFFER ?s = [big_row 60000]"
    by (simp add: logEnqueue_def idbPutAll_def initial_def scheduleFlush_def Let_def split: tx_outcome.splits)
  have "shrink (num_to_string e) [big_row 60000] 0 1 None = None"
  proof (rule shrink_diverges)
    fix k :: nat assume "0 < k" "k \<le> 1"
    then have "k = 1" by simp
    then show "maxBytes < blob_size (num_to_string e) (slice [big_row 60000] 0 k)"
      by (simp add: slice_def blob_size_one maxBytes_def)
  qed simp
  then show ?thesis
    by (simp add: flushSyncBeacon_def b LOG_BATCH_SIZE_def)
qed

text \<open>
  \<^bold>\<open>C5\<close> (size cap, most recent rows first) fails in its second half. With two rows in
  the mirror, too large together, the loop keeps \<^verbatim>\<open>sliceStart\<close> and lowers \<^verbatim>\<open>end\<close>: the one
  payload handed to \<^verbatim>\<open>sendBeacon\<close> holds the older row, although the most recent row
  would have fitted the cap by itself.
\<close>

theorem flushSyncBeacon_drops_newest_row:
  "flushSyncBeacon e (snd (logEnqueue Completes (Arr [big_row 40000, big_row 30000]) (initial True True)))
   = Some ((snd (logEnqueue Completes (Arr [big_row 40000, big_row 30000]) (initial True True)))
             \<lparr>beacons := [[big_row 40000]]\<rparr>)
   \<and> blob_size (num_to_string e) [big_row 30000] \<le> maxBytes"
proof -
  let ?s = "snd (logEnqueue Completes (Arr [big_row 40000, big_row 30000]) (initial True True))"
  have b: "LOG_BUFFER ?s = [big_row 40000, big_row 30000]" "has_sendBeacon ?s" "beacons ?s = []"
    by (simp_all add: logEnqueue_def idbPutAll_def initial_def scheduleFlush_def Let_def)
  have 1: "shrink (num_to_string e) [big_row 40000, big_row 30000] 0 (Suc 0) (Some [big_row 40000, big_row 30000])
        = Some (Some [big_row 40000])"
    by (subst shrink.simps) (simp add: slice_def blob_size_one maxBytes_def)
  have "shrink (num_to_string e) [big_row 40000, big_row 30000] 0 (Suc (Suc 0)) None = Some (Some [big_row 40000])"
    by (subst shrink.simps) (simp add: slice_def blob_size_two maxBytes_def 1)
  then show ?thesis
    by (simp add: flushSyncBeacon_def b LOG_BATCH_SIZE_def blob_size_one maxBytes_def Let_def)
qed

section \<open>The claims about the row normalizer\<close>

lemma row_user_agent:
  "get_prop (Obj (finish_row e d (row_literal e d et ua))) ''user_agent'' = ua"
  by (simp add: finish_row_def row_literal_def Let_def)

lemma row_event_type:
  "get_prop (Obj (finish_row e d (row_literal e d et ua))) ''event_type'' = et"
  by (simp add: finish_row_def row_literal_def Let_def)

lemmas row_fields = row_user_agent[unfolded get_prop.simps] row_event_type[unfolded get_prop.simps]

lemma convertible_conversions: "convertible d \<Longrightarrow> conversions_ok d et"
  by (simp add: convertible_def conversions_ok_def)

lemma normalize_trial_total:
  assumes "convertible d"
  shows "normalize_trial e emitted d =
     Inr (if dropped d then (Null, emitted)
          else (Obj (finish_row e d (row_literal e d (mapEventType d)
                       (if emitted then Null else Str (userAgent e)))),
                emitted \<or> userAgent e \<noteq> []))"
  using assms convertible_conversions[OF assms, of "mapEventType d"]
  by (auto simp: normalize_trial_def dropped_def Let_def convertible_def)


lemma map_trials_total:
  assumes "\<forall>d\<in>set ds. convertible d"
  shows "\<exists>rs. map_trials e emitted ds
            = (Inr rs, emitted \<or> (userAgent e \<noteq> [] \<and> filter (\<lambda>d. \<not> dropped d) ds \<noteq> []))
          \<and> map (\<lambda>r. get_prop r ''event_type'') (filter truthy rs)
              = map mapEventType (filter (\<lambda>d. \<not> dropped d) ds)"
  using assms
proof (induction ds arbitrary: emitted)
  case Nil
  then show ?case by simp
next
  case (Cons d ds)
  then have d: "convertible d" and ds: "\<forall>d\<in>set ds. convertible d" by simp_all
  show ?case
  proof (cases "dropped d")
    case True
    from Cons.IH[OF ds, of emitted] obtain rs where
      "map_trials e emitted ds = (Inr rs, emitted \<or> (userAgent e \<noteq> [] \<and> filter (\<lambda>d. \<not> dropped d) ds \<noteq> []))"
      "map (\<lambda>r. get_prop r ''event_type'') (filter truthy rs) = map mapEventType (filter (\<lambda>d. \<not> dropped d) ds)"
      by blast
    with True d show ?thesis
      by (simp add: normalize_trial_total)
  next
    case False
    let ?f = "emitted \<or> userAgent e \<noteq> []"
    from Cons.IH[OF ds, of ?f] obtain rs where
      "map_trials e ?f ds = (Inr rs, ?f \<or> (userAgent e \<noteq> [] \<and> filter (\<lambda>d. \<not> dropped d) ds \<noteq> []))"
      "map (\<lambda>r. get_prop r ''event_type'') (filter truthy rs) = map mapEventType (filter (\<lambda>d. \<not> dropped d) ds)"
      by blast
    with False d show ?thesis
      by (auto simp: normalize_trial_total row_fields)
  qed
qed

lemma map_trials_user_agent:
  assumes "\<forall>d\<in>set ds. convertible d" "userAgent e \<noteq> []"
  shows "\<exists>rs. map_trials e emitted ds = (Inr rs, emitted \<or> filter (\<lambda>d. \<not> dropped d) ds \<noteq> [])
          \<and> length (filter truthy rs) = length (filter (\<lambda>d. \<not> dropped d) ds)
          \<and> map (\<lambda>r. get_prop r ''user_agent'') (filter truthy rs)
              = (if emitted then map (\<lambda>r. Null) (filter truthy rs)
                 else case filter truthy rs of [] \<Rightarrow> []
                      | r # rest \<Rightarrow> Str (userAgent e) # map (\<lambda>r. Null) rest)"
  using assms(1)
proof (induction ds arbitrary: emitted)
  case Nil
  then show ?case by simp
next
  case (Cons d ds)
  then have d: "convertible d" and ds: "\<forall>d\<in>set ds. convertible d" by simp_all
  show ?case
  proof (cases "dropped d")
    case True
    from Cons.IH[OF ds, of emitted] obtain rs where
      "map_trials e emitted ds = (Inr rs, emitted \<or> filter (\<lambda>d. \<not> dropped d) ds \<noteq> [])"
      "length (filter truthy rs) = length (filter (\<lambda>d. \<not> dropped d) ds)"
      "map (\<lambda>r. get_prop r ''user_agent'') (filter truthy rs)
              = (if emitted then map (\<lambda>r. Null) (filter truthy rs)
                 else case filter truthy rs of [] \<Rightarrow> []
                      | r # rest \<Rightarrow> Str (userAgent e) # map (\<lambda>r. Null) rest)"
      by blast
    with True d show ?thesis
      by (simp add: normalize_trial_total)
  next
    case False
    from Cons.IH[OF ds, of True] obtain rs where
      "map_trials e True ds = (Inr rs, True)"
      "length (filter truthy rs) = length (filter (\<lambda>d. \<not> dropped d) ds)"
      "map (\<lambda>r. get_prop r ''user_agent'') (filter truthy rs) = map (\<lambda>r. Null) (filter truthy rs)"
      by auto
    with False d assms(2) show ?thesis
      by (auto simp: normalize_trial_total row_fields)
  qed
qed




lemma user_agents_simps [simp]:
  "user_agents [] = []"
  "user_agents (r # rows) = get_prop r ''user_agent'' # user_agents rows"
  "user_agents (xs @ ys) = user_agents xs @ user_agents ys"
  by (simp_all add: user_agents_def)

lemma length_user_agents [simp]: "length (user_agents rows) = length rows"
  by (simp add: user_agents_def)

text \<open>What the callback does to the flag, whatever the record.\<close>

lemma normalize_trial_flag:
  assumes "userAgent e \<noteq> []" "normalize_trial e emitted d = Inr (r, emitted')"
  shows "(r = Null \<and> emitted' = emitted)
       \<or> (truthy r \<and> get_prop r ''user_agent'' = (if emitted then Null else Str (userAgent e)) \<and> emitted')"
  using assms
  by (auto simp: normalize_trial_def Let_def row_fields split: if_splits)

lemma map_trials_flag:
  assumes "userAgent e \<noteq> []"
  shows "case map_trials e emitted ds of
           (Inl err, emitted') \<Rightarrow> emitted \<longrightarrow> emitted'
         | (Inr rs, emitted') \<Rightarrow>
             emitted' = (emitted \<or> filter truthy rs \<noteq> [])
             \<and> user_agents (filter truthy rs)
                 = (if emitted then map (\<lambda>r. Null) (filter truthy rs)
                    else case filter truthy rs of [] \<Rightarrow> []
                         | r # rest \<Rightarrow> Str (userAgent e) # map (\<lambda>r. Null) rest)"
proof (induction ds arbitrary: emitted)
  case Nil
  then show ?case by simp
next
  case (Cons d ds)
  show ?case
  proof (cases "normalize_trial e emitted d")
    case (Inl err)
    then show ?thesis by simp
  next
    case (Inr p)
    obtain r em where p: "p = (r, em)" by (cases p)
    note nt = normalize_trial_flag[OF assms Inr[unfolded p]]
    note ih = Cons.IH[of em]
    obtain res em2 where m: "map_trials e em ds = (res, em2)" by (cases "map_trials e em ds")
    show ?thesis
    proof (cases res)
      case (Inl err)
      with nt ih m Inr p show ?thesis by auto
    next
      case rs: (Inr rs)
      from ih m rs have i1: "em2 = (em \<or> filter truthy rs \<noteq> [])"
        and i2: "user_agents (filter truthy rs)
                 = (if em then map (\<lambda>r. Null) (filter truthy rs)
                    else case filter truthy rs of [] \<Rightarrow> []
                         | r # rest \<Rightarrow> Str (userAgent e) # map (\<lambda>r. Null) rest)"
        by simp_all
      from nt show ?thesis
      proof
        assume "r = Null \<and> em = emitted"
        with i1 i2 m rs Inr p show ?thesis by simp
      next
        assume a: "truthy r \<and> get_prop r ''user_agent'' = (if emitted then Null else Str (userAgent e)) \<and> em"
        with i1 i2 m rs Inr p show ?thesis by simp
      qed
    qed
  qed
qed

lemma buildRows_flag:
  assumes "userAgent e \<noteq> []"
  shows "case buildRowsForLogging e ds flag of
           (Inl err, flag') \<Rightarrow> flag = Some True \<longrightarrow> flag' = Some True
         | (Inr rows, flag') \<Rightarrow>
             flag' = Some (flag = Some True \<or> rows \<noteq> [])
             \<and> user_agents rows
                 = (if flag = Some True then map (\<lambda>r. Null) rows
                    else case rows of [] \<Rightarrow> []
                         | r # rest \<Rightarrow> Str (userAgent e) # map (\<lambda>r. Null) rest)"
proof -
  let ?em = "case flag of Some b \<Rightarrow> b | None \<Rightarrow> False"
  have em: "?em = (flag = Some True)" by (cases flag) auto
  obtain res em2 where m: "map_trials e ?em ds = (res, em2)" by (cases "map_trials e ?em ds")
  from map_trials_flag[OF assms, of ?em ds] m show ?thesis
    unfolding em by (cases res) (simp_all add: buildRowsForLogging_def em)
qed

lemma session_flag:
  assumes "userAgent e \<noteq> []"
  shows "(flag = Some True \<longrightarrow>
            user_agents (concat (session_rows e flag calls))
              = map (\<lambda>r. Null) (concat (session_rows e flag calls)))
       \<and> (user_agents (concat (session_rows e flag calls))
              = map (\<lambda>r. Null) (concat (session_rows e flag calls))
          \<or> user_agents (concat (session_rows e flag calls))
              = Str (userAgent e) # map (\<lambda>r. Null) (tl (concat (session_rows e flag calls))))"
proof (induction calls arbitrary: flag)
  case Nil
  then show ?case by simp
next
  case (Cons call calls)
  obtain res flag' where b: "buildRowsForLogging e call flag = (res, flag')"
    by (cases "buildRowsForLogging e call flag")
  note ih = Cons.IH[of flag']
  note bf = buildRows_flag[OF assms, where ds = call and flag = flag]
  show ?case
  proof (cases res)
    case (Inl err)
    then have s: "session_rows e flag (call # calls) = [] # session_rows e flag' calls"
      using b by simp
    from bf b Inl have "flag = Some True \<longrightarrow> flag' = Some True" by simp
    with ih show ?thesis unfolding s by auto
  next
    case (Inr rows)
    then have s: "session_rows e flag (call # calls) = rows # session_rows e flag' calls"
      using b by simp
    from bf b Inr have f: "flag' = Some (flag = Some True \<or> rows \<noteq> [])"
      and u: "user_agents rows
                 = (if flag = Some True then map (\<lambda>r. Null) rows
                    else case rows of [] \<Rightarrow> []
                         | r # rest \<Rightarrow> Str (userAgent e) # map (\<lambda>r. Null) rest)"
      by simp_all
    show ?thesis
    proof (cases "flag = Some True")
      case True
      with ih f u show ?thesis unfolding s by simp
    next
      case False
      show ?thesis
      proof (cases rows)
        case Nil
        with ih False show ?thesis unfolding s by simp
      next
        case (Cons r rest)
        with f have "flag' = Some True" by simp
        with ih have "user_agents (concat (session_rows e flag' calls))
              = map (\<lambda>r. Null) (concat (session_rows e flag' calls))" by simp
        with False Cons u show ?thesis unfolding s by simp
      qed
    qed
  qed
qed

lemma session_user_agent:
  assumes "\<forall>call\<in>set calls. \<forall>d\<in>set call. convertible d" "userAgent e \<noteq> []"
  shows "length (concat (session_rows e flag calls)) = length (filter (\<lambda>d. \<not> dropped d) (concat calls))
     \<and> (concat (session_rows e flag calls) \<noteq> [] \<and> flag \<noteq> Some True \<longrightarrow>
          user_agents (concat (session_rows e flag calls)) \<noteq> map (\<lambda>r. Null) (concat (session_rows e flag calls)))"
  using assms(1)
proof (induction calls arbitrary: flag)
  case Nil
  then show ?case by simp
next
  case (Cons call calls)
  then have c: "\<forall>d\<in>set call. convertible d" and cs: "\<forall>call\<in>set calls. \<forall>d\<in>set call. convertible d"
    by simp_all
  let ?em = "case flag of Some b \<Rightarrow> b | None \<Rightarrow> False"
  have em: "?em = (flag = Some True)" by (cases flag) auto
  from map_trials_total[OF c, of e ?em] obtain rs where
    mt: "map_trials e ?em call
            = (Inr rs, ?em \<or> (userAgent e \<noteq> [] \<and> filter (\<lambda>d. \<not> dropped d) call \<noteq> []))"
    and ev: "map (\<lambda>r. get_prop r ''event_type'') (filter truthy rs)
              = map mapEventType (filter (\<lambda>d. \<not> dropped d) call)"
    by blast
  let ?rows = "filter truthy rs"
  let ?flag' = "Some (flag = Some True \<or> filter (\<lambda>d. \<not> dropped d) call \<noteq> [])"
  have l: "length ?rows = length (filter (\<lambda>d. \<not> dropped d) call)"
    using ev by (metis length_map)
  have b: "buildRowsForLogging e call flag = (Inr ?rows, ?flag')"
    using mt assms(2) by (simp add: buildRowsForLogging_def em)
  have s: "session_rows e flag (call # calls) = ?rows # session_rows e ?flag' calls"
    using b by simp
  note ih = Cons.IH[OF cs, of ?flag']
  from buildRows_flag[OF assms(2), where ds = call and flag = flag] b
  have u: "user_agents ?rows
                 = (if flag = Some True then map (\<lambda>r. Null) ?rows
                    else case ?rows of [] \<Rightarrow> []
                         | r # rest \<Rightarrow> Str (userAgent e) # map (\<lambda>r. Null) rest)"
    by simp
  show ?case
  proof (cases "?rows")
    case Nil
    with l have "filter (\<lambda>d. \<not> dropped d) call = []" by simp
    with ih Nil show ?thesis unfolding s by (cases "flag = Some True") simp_all
  next
    case (Cons r rest)
    with l ih u show ?thesis unfolding s by auto
  qed
qed

lemma userAgent_example: "userAgent example_env = ''Mozilla/5.0''"
  by (simp add: example_env_def)

text \<open>
  \<^bold>\<open>C6\<close> (raw user agent once per session), as the code has it. In a browser whose
  user agent is not the empty string, over any calls of the normalizer on any records:
  of the rows emitted, at most one carries the raw user agent, it can only be the first
  row emitted, and every other row carries \<^verbatim>\<open>null\<close>; once the flag is set, every row
  carries \<^verbatim>\<open>null\<close>. When the session starts with the flag unset or false and no call
  throws (every record is something the callback can work on), the rows emitted are one
  per retained record, the first of them carries the raw user agent and every later one,
  in the same call or in a later call, carries \<^verbatim>\<open>null\<close>.
\<close>

theorem user_agent_once_per_session:
  assumes "userAgent e \<noteq> []"
  shows "(user_agents (concat (session_rows e flag calls))
            = map (\<lambda>r. Null) (concat (session_rows e flag calls))
          \<or> user_agents (concat (session_rows e flag calls))
            = Str (userAgent e) # map (\<lambda>r. Null) (tl (concat (session_rows e flag calls))))
     \<and> (flag = Some True \<longrightarrow>
          user_agents (concat (session_rows e flag calls))
            = map (\<lambda>r. Null) (concat (session_rows e flag calls)))
     \<and> (flag \<noteq> Some True \<and> (\<forall>call\<in>set calls. \<forall>d\<in>set call. convertible d) \<longrightarrow>
          length (concat (session_rows e flag calls))
            = length (filter (\<lambda>d. \<not> dropped d) (concat calls))
          \<and> user_agents (concat (session_rows e flag calls))
            = (case concat (session_rows e flag calls) of [] \<Rightarrow> []
               | first # later \<Rightarrow> Str (userAgent e) # map (\<lambda>r. Null) later))"
proof -
  let ?R = "concat (session_rows e flag calls)"
  note sf = session_flag[OF assms, of flag calls]
  have 3: "length ?R = length (filter (\<lambda>d. \<not> dropped d) (concat calls))
          \<and> user_agents ?R = (case ?R of [] \<Rightarrow> [] | first # later \<Rightarrow> Str (userAgent e) # map (\<lambda>r. Null) later)"
    if h: "flag \<noteq> Some True \<and> (\<forall>call\<in>set calls. \<forall>d\<in>set call. convertible d)"
  proof -
    from h have c: "\<forall>call\<in>set calls. \<forall>d\<in>set call. convertible d" by simp
    note su = session_user_agent[OF c assms, of flag]
    show ?thesis
    proof (cases ?R)
      case Nil
      show ?thesis using su unfolding Nil by simp
    next
      case (Cons first later)
      with su h have "user_agents ?R \<noteq> map (\<lambda>r. Null) ?R" by simp
      with sf have "user_agents ?R = Str (userAgent e) # map (\<lambda>r. Null) (tl ?R)" by blast
      with su Cons show ?thesis by simp
    qed
  qed
  from sf 3 show ?thesis by blast
qed

text \<open>
  Two calls, three records, two of them retained: the first row carries the user agent,
  the second \<^verbatim>\<open>null\<close>.
\<close>

theorem user_agent_once_per_session_witness:
  "user_agents
     (concat (session_rows example_env None
        [[Obj [(''trial_type'', Str ''door''), (''choice'', Str ''left'')]],
         [Obj [(''trial_type'', Str ''fade_transition'')],
          Obj [(''trial_type'', Str ''trust_probe''), (''slider_value'', Num 40)]]]))
   = [Str ''Mozilla/5.0'', Null]"
proof -
  let ?calls = "[[Obj [(''trial_type'', Str ''door''), (''choice'', Str ''left'')]],
         [Obj [(''trial_type'', Str ''fade_transition'')],
          Obj [(''trial_type'', Str ''trust_probe''), (''slider_value'', Num 40)]]]"
  let ?rows = "concat (session_rows example_env None ?calls)"
  have h: "userAgent example_env \<noteq> []"
    by (simp add: example_env_def)
  have c: "(None :: bool option) \<noteq> Some True \<and> (\<forall>call\<in>set ?calls. \<forall>d\<in>set call. convertible d)"
    by (simp add: nullish_def convertible_def)
  have n: "length (filter (\<lambda>d. \<not> dropped d) (concat ?calls)) = 2"
    by (simp add: dropped_def mapEventType_def has_def js_or_def is_defined_def
          ALLOW_TYPES_def IGNORE_TRIAL_TYPES_def Let_def)
  from user_agent_once_per_session[OF h, of None ?calls] c n
  have l: "length ?rows = 2"
    and u: "user_agents ?rows
         = (case ?rows of [] \<Rightarrow> [] | first # later \<Rightarrow> Str (userAgent example_env) # map (\<lambda>r. Null) later)"
    by simp_all
  from l obtain r1 r2 where "?rows = [r1, r2]"
    unfolding numeral_2_eq_2 length_Suc_conv by blast
  with u show ?thesis by (simp only: list.case list.map userAgent_example)
qed

text \<open>
  The claim \<^bold>\<open>C6\<close> as stated fails when a call throws after it has built its first
  retained row: the flag is set, the row is not returned, and the one row the session
  emits afterwards carries \<^verbatim>\<open>null\<close>, so that no emitted row carries the user agent. It
  also fails in a browser whose user agent is the empty string: the flag is never set and
  every row carries the empty string.
\<close>

theorem user_agent_lost_counterexample:
  "user_agents (concat (session_rows example_env None [[door_record, Null], [door_record]])) = [Null]
   \<and> length (concat (session_rows example_env None [[door_record, Null], [door_record]])) = 1
   \<and> user_agents (concat (session_rows (example_env\<lparr>userAgent := []\<rparr>) None
        [[door_record], [door_record]])) = [Str [], Str []]"
proof -
  have cv: "convertible door_record" by (simp add: door_record_def nullish_def convertible_def)
  have nd: "\<not> dropped door_record"
    by (simp add: door_record_def dropped_def mapEventType_def has_def js_or_def is_defined_def
          ALLOW_TYPES_def IGNORE_TRIAL_TYPES_def Let_def)
  note nt = normalize_trial_total[OF cv]
  have nn: "normalize_trial e g Null = Inl TypeError" for e g
    by (simp add: normalize_trial_def nullish_def)
  have 1: "buildRowsForLogging example_env [door_record, Null] None = (Inl TypeError, Some True)"
    by (simp add: buildRowsForLogging_def nt nd nn userAgent_example)
  have 2: "buildRowsForLogging example_env [door_record] (Some True)
      = (Inr [Obj (finish_row example_env door_record
                    (row_literal example_env door_record (mapEventType door_record) Null))], Some True)"
    by (simp add: buildRowsForLogging_def nt nd)
  let ?e0 = "example_env\<lparr>userAgent := []\<rparr>"
  have 3: "buildRowsForLogging ?e0 [door_record] flag
      = (Inr [Obj (finish_row ?e0 door_record
                    (row_literal ?e0 door_record (mapEventType door_record) (Str [])))], Some False)"
    if "flag = None \<or> flag = Some False" for flag
    using that by (auto simp add: buildRowsForLogging_def nt nd)
  show ?thesis
    by (simp add: 1 2 3 row_fields)
qed

end
